theory Spec2Isabelle
  imports Main "HOL-Library.AList" "HOL-Library.Signed_Division" "HOL-Library.Multiset"
begin

section \<open>The asynchronous screen sink of libvips (iofuncs/sinkscreen.c)\<close>

text \<open>
  A shallow embedding of the tile cache and of the render scheduler of
  \<^verbatim>\<open>sinkscreen.c\<close>. Heap objects are addressed by natural numbers: a
  \<^verbatim>\<open>Tile *\<close> is a \<open>tile_ptr\<close> into the tile memory of its render, a
  \<^verbatim>\<open>Render *\<close> is a \<open>render_ptr\<close> into the table of renders of the world.
  C \<^verbatim>\<open>int\<close>s are mathematical integers. Where the code computes with values
  that may leave the 32-bit range this is written out: the comparison function of
  the scheduler wraps around, and the counters of the loops over the tile grid stop
  the call when an increment overflows. Division is C's (truncating).
\<close>

type_synonym tile_ptr = nat
type_synonym render_ptr = nat

subsection \<open>Rectangles and regions\<close>

record Rect =
  left :: int
  top :: int
  width :: int
  height :: int

definition IM_RECT_RIGHT :: "Rect \<Rightarrow> int" where
  "IM_RECT_RIGHT r = left r + width r"

definition IM_RECT_BOTTOM :: "Rect \<Rightarrow> int" where
  "IM_RECT_BOTTOM r = Rect.top r + height r"

text \<open>
  Modelled from the spec: \<^verbatim>\<open>im_rect_intersectrect\<close> and \<^verbatim>\<open>im_rect_isempty\<close>
  (libvips' rect.c is not part of the sources at hand): the common pixels of two
  rectangles, with width and height clipped at zero, and the test for a rectangle
  without pixels.
\<close>

definition im_rect_intersectrect :: "Rect \<Rightarrow> Rect \<Rightarrow> Rect" where
  "im_rect_intersectrect r1 r2 =
     (let l = max (left r1) (left r2);
          t = max (Rect.top r1) (Rect.top r2);
          r = min (IM_RECT_RIGHT r1) (IM_RECT_RIGHT r2);
          b = min (IM_RECT_BOTTOM r1) (IM_RECT_BOTTOM r2)
      in \<lparr>left = l, top = t, width = max 0 (r - l), height = max 0 (b - t)\<rparr>)"

definition im_rect_isempty :: "Rect \<Rightarrow> bool" where
  "im_rect_isempty r = (width r \<le> 0 \<or> height r \<le> 0)"

definition im_rect_includespoint :: "Rect \<Rightarrow> int \<Rightarrow> int \<Rightarrow> bool" where
  "im_rect_includespoint r x y =
     (left r \<le> x \<and> x < IM_RECT_RIGHT r \<and> Rect.top r \<le> y \<and> y < IM_RECT_BOTTOM r)"

text \<open>
  A \<^verbatim>\<open>REGION\<close>: the rectangle it holds pixels for, the flag that upstream pixels
  have changed, and the pixels. A pel is one value (the code copies
  \<^verbatim>\<open>IM_IMAGE_SIZEOF_PEL\<close> bytes for each).
\<close>

record REGION =
  valid :: Rect
  invalid :: bool
  pels :: "int \<times> int \<Rightarrow> nat"

text \<open>
  Modelled from the spec: \<^verbatim>\<open>im_region_paint\<close> (libvips' region.c is not part of the
  sources at hand) sets the pels of a rectangle, clipped to the region, to a value.
\<close>

definition im_region_paint :: "REGION \<Rightarrow> Rect \<Rightarrow> nat \<Rightarrow> REGION" where
  "im_region_paint reg r v =
     (let ovl = im_rect_intersectrect r (valid reg)
      in reg\<lparr>pels := (\<lambda>(x, y). if im_rect_includespoint ovl x y then v else pels reg (x, y))\<rparr>)"

subsection \<open>Tiles and renders\<close>

text \<open>
  The back pointer \<^verbatim>\<open>tile->render\<close> is set once by \<^verbatim>\<open>tile_new\<close> and never
  changes; the functions that follow it take the render as an argument instead.
  The region a tile points to is owned by the tile alone and is held by value.
\<close>

record Tile =
  area :: Rect
  painted :: bool
  region :: REGION
  ticks :: int

text \<open>
  The hash table \<^verbatim>\<open>tiles\<close> hashes with \<^verbatim>\<open>tile_hash\<close> and compares keys with
  \<^verbatim>\<open>tile_equal\<close>, which looks at \<open>left\<close> and \<open>top\<close> only: a key is the pair of
  both. The table is an association list; the order of its entries is the order in
  which \<^verbatim>\<open>g_hash_table_foreach\<close> visits them, which GLib leaves open, and no
  theorem below depends on it.
  \<open>nalloc\<close> is not a field of the C structure: it counts the allocations asked
  for so far, so that the allocator can answer each request on its own.
\<close>

type_synonym tile_key = "int \<times> int"

record Render =
  ref_count :: int
  tile_width :: int
  tile_height :: int
  max_tiles :: int
  priority :: int
  notify :: bool
  all :: "tile_ptr list"
  ntiles :: int
  ticks :: int
  dirty :: "tile_ptr list"
  tiles :: "(tile_key \<times> tile_ptr) list"
  tilemem :: "tile_ptr \<Rightarrow> Tile"
  nalloc :: nat

definition tile_equal :: "Rect \<Rightarrow> Rect \<Rightarrow> bool" where
  "tile_equal rect1 rect2 = (left rect1 = left rect2 \<and> Rect.top rect1 = Rect.top rect2)"

definition key_of :: "Rect \<Rightarrow> tile_key" where
  "key_of rect = (left rect, Rect.top rect)"

text \<open>
  The world: the renders, and the globals of the scheduler
  (\<^verbatim>\<open>render_dirty_all\<close>, \<^verbatim>\<open>render_dirty_sem\<close>, \<^verbatim>\<open>render_reschedule\<close>).
  \<open>notified\<close> records the calls of the \<^verbatim>\<open>notify\<close> callbacks.
\<close>

record world =
  renders :: "render_ptr \<Rightarrow> Render"
  render_dirty_all :: "render_ptr list"
  render_dirty_sem :: int
  render_reschedule :: bool
  notified :: "(render_ptr \<times> Rect) list"

text \<open>
  The collaborators that are not part of \<^verbatim>\<open>sinkscreen.c\<close> are parameters:
  whether threads are compiled in, the allocator (\<^verbatim>\<open>IM_NEW\<close> hands out memory
  with whatever contents, or fails; \<^verbatim>\<open>im_region_create\<close> makes a region on the
  producer image, or fails), and the region operations of the producer, each
  returning its C result (0 for success) and the region as it leaves it.
\<close>

record env =
  have_threads :: bool
  IM_NEW :: "nat \<Rightarrow> Tile option"
  im_region_create :: "nat \<Rightarrow> REGION option"
  im_region_buffer :: "REGION \<Rightarrow> Rect \<Rightarrow> int \<times> REGION"
  im_prepare :: "REGION \<Rightarrow> Rect \<Rightarrow> int \<times> REGION"
  im_prepare_to :: "REGION \<Rightarrow> Rect \<Rightarrow> int \<times> REGION"

datatype error = Assertion_failed | Division_by_zero | Loops_forever | Integer_overflow | Blocks

text \<open>
  A call that does not return normally leaves the world as it was at that point.
  \<open>Integer_overflow\<close> is the overflow of a signed addition: from there on C leaves
  the behaviour of the program open (on the usual machines the counter wraps around
  and the loop goes on), and the model says that the call does not return.
\<close>

definition INT_MAX :: int where
  "INT_MAX = 2 ^ 31 - 1"

type_synonym 'a result = "(error \<times> world) + 'a"

definition set_render :: "render_ptr \<Rightarrow> Render \<Rightarrow> world \<Rightarrow> world" where
  "set_render rp r w = w\<lparr>renders := (renders w)(rp := r)\<rparr>"

subsection \<open>The scheduler\<close>

definition wrap32 :: "int \<Rightarrow> int" where
  "wrap32 i = (i + 2 ^ 31) mod 2 ^ 32 - 2 ^ 31"

definition render_dirty_sort :: "world \<Rightarrow> render_ptr \<Rightarrow> render_ptr \<Rightarrow> int" where
  "render_dirty_sort w a b = wrap32 (priority (renders w b) - priority (renders w a))"

text \<open>
  \<^verbatim>\<open>g_slist_sort\<close> is GLib's merge sort on singly linked lists: the list is cut
  after its first \<open>n div 2\<close> elements, both parts are sorted, and the merge takes
  from the first part while the comparison is not positive.
\<close>

fun g_slist_sort_merge :: "('a \<Rightarrow> 'a \<Rightarrow> int) \<Rightarrow> 'a list \<Rightarrow> 'a list \<Rightarrow> 'a list" where
  "g_slist_sort_merge cmp [] l2 = l2"
| "g_slist_sort_merge cmp l1 [] = l1"
| "g_slist_sort_merge cmp (x # l1) (y # l2) =
     (if cmp x y \<le> 0 then x # g_slist_sort_merge cmp l1 (y # l2)
      else y # g_slist_sort_merge cmp (x # l1) l2)"

function g_slist_sort :: "('a \<Rightarrow> 'a \<Rightarrow> int) \<Rightarrow> 'a list \<Rightarrow> 'a list" where
  "g_slist_sort cmp xs =
     (if length xs \<le> 1 then xs
      else g_slist_sort_merge cmp
             (g_slist_sort cmp (take (length xs div 2) xs))
             (g_slist_sort cmp (drop (length xs div 2) xs)))"
  by pat_completeness auto
termination
  by (relation "measure (\<lambda>(cmp, xs). length xs)") auto

declare g_slist_sort.simps [simp del]

definition render_dirty_put :: "render_ptr \<Rightarrow> world \<Rightarrow> world" where
  "render_dirty_put rp w =
     (if dirty (renders w rp) \<noteq> [] then
        if rp \<notin> set (render_dirty_all w) then
          w\<lparr>render_dirty_all := g_slist_sort (render_dirty_sort w) (rp # render_dirty_all w),
            render_reschedule := True,
            render_dirty_sem := render_dirty_sem w + 1\<rparr>
        else w
      else w)"

definition render_ref :: "render_ptr \<Rightarrow> world \<Rightarrow> world result" where
  "render_ref rp w =
     (let r = renders w rp
      in if ref_count r = 0 then Inl (Assertion_failed, w)
         else Inr (set_render rp (r\<lparr>ref_count := ref_count r + 1\<rparr>) w))"

text \<open>
  \<^verbatim>\<open>render_dirty_get\<close> waits on the semaphore: with no ticket it does not return.
  With a ticket it takes the head of the list, if there is one, and references it.
\<close>

definition render_dirty_get :: "world \<Rightarrow> (render_ptr option \<times> world) result" where
  "render_dirty_get w =
     (if render_dirty_sem w \<le> 0 then Inl (Blocks, w)
      else
        let w1 = w\<lparr>render_dirty_sem := render_dirty_sem w - 1\<rparr>
        in case render_dirty_all w1 of
             [] \<Rightarrow> Inr (None, w1)
           | render # _ \<Rightarrow>
               (case render_ref render w1 of
                  Inl e \<Rightarrow> Inl e
                | Inr w2 \<Rightarrow>
                    Inr (Some render,
                         w2\<lparr>render_dirty_all := remove1 render (render_dirty_all w2)\<rparr>)))"

text \<open>
  \<^verbatim>\<open>render_allocate\<close>: the result is the flag \<^verbatim>\<open>*stop\<close> and the tile handed to
  the thread.
\<close>

definition render_allocate :: "render_ptr \<Rightarrow> world \<Rightarrow> (bool \<times> tile_ptr option) \<times> world" where
  "render_allocate rp w =
     (let r = renders w rp
      in if render_reschedule w \<or> dirty r = [] then ((True, None), w)
         else
           let tile = hd (dirty r)
           in ((False, Some tile), set_render rp (r\<lparr>dirty := remove1 tile (dirty r)\<rparr>) w))"

definition render_work :: "env \<Rightarrow> render_ptr \<Rightarrow> tile_ptr \<Rightarrow> world \<Rightarrow> int \<times> world" where
  "render_work E rp t w =
     (let r = renders w rp; tile = tilemem r t
      in if \<not> painted tile then
           (case im_prepare_to E (region tile) (area tile) of (rc, reg) \<Rightarrow>
              let tile1 = tile\<lparr>region := reg\<rparr>;
                  w1 = set_render rp (r\<lparr>tilemem := (tilemem r)(t := tile1)\<rparr>) w
              in if rc \<noteq> 0 then (- 1, w1)
                 else
                   let w2 = set_render rp
                              (r\<lparr>tilemem := (tilemem r)(t := tile1\<lparr>painted := True\<rparr>)\<rparr>) w
                   in (0, if notify r then w2\<lparr>notified := notified w2 @ [(rp, area tile)]\<rparr> else w2))
         else (0, w))"

subsection \<open>The tile cache\<close>

definition render_new :: "int \<Rightarrow> int \<Rightarrow> int \<Rightarrow> int \<Rightarrow> bool \<Rightarrow> bool \<Rightarrow> (tile_ptr \<Rightarrow> Tile) \<Rightarrow> Render" where
  "render_new tw th mt pri nfy has_mask mem =
     \<lparr>ref_count = (if has_mask then 2 else 1), tile_width = tw, tile_height = th, max_tiles = mt,
      priority = pri, notify = nfy, all = [], ntiles = 0, ticks = 0, dirty = [], tiles = [],
      tilemem = mem, nalloc = 0\<rparr>"

text \<open>The address of a new tile differs from the address of every tile in \<open>all\<close>.\<close>

definition fresh_tile :: "Render \<Rightarrow> tile_ptr" where
  "fresh_tile r = Suc (fold max (all r) 0)"

definition tile_new :: "env \<Rightarrow> Render \<Rightarrow> tile_ptr option \<times> Render" where
  "tile_new E r =
     (let r0 = r\<lparr>nalloc := Suc (nalloc r)\<rparr>
      in case IM_NEW E (nalloc r) of
           None \<Rightarrow> (None, r0)
         | Some raw \<Rightarrow>
             let tile = raw\<lparr>area := \<lparr>left = 0, top = 0, width = 0, height = 0\<rparr>,
                           Tile.ticks := ticks r\<rparr>
             in case im_region_create E (nalloc r) of
                  None \<Rightarrow> (None, r0)
                | Some reg \<Rightarrow>
                    let p = fresh_tile r
                    in (Some p,
                        r0\<lparr>tilemem := (tilemem r)(p := tile\<lparr>region := reg\<rparr>),
                           all := p # all r,
                           ntiles := ntiles r + 1\<rparr>))"

definition render_tile_lookup :: "Render \<Rightarrow> Rect \<Rightarrow> tile_ptr option" where
  "render_tile_lookup r a = map_of (tiles r) (key_of a)"

definition tile_touch :: "tile_ptr \<Rightarrow> Render \<Rightarrow> Render" where
  "tile_touch t r =
     (let r1 = r\<lparr>tilemem := (tilemem r)(t := (tilemem r t)\<lparr>Tile.ticks := ticks r\<rparr>),
                 ticks := ticks r + 1\<rparr>
      in if \<not> painted (tilemem r1 t) then
           if t \<in> set (dirty r1) then r1\<lparr>dirty := t # remove1 t (dirty r1)\<rparr> else r1
         else r1)"

text \<open>
  \<^verbatim>\<open>tile_queue\<close>. A failure of \<^verbatim>\<open>im_region_buffer\<close> is printed and nothing
  else; the result of \<^verbatim>\<open>im_prepare\<close> is not looked at.
\<close>

definition tile_queue :: "env \<Rightarrow> render_ptr \<Rightarrow> tile_ptr \<Rightarrow> Rect \<Rightarrow> world \<Rightarrow> world" where
  "tile_queue E rp t a w =
     (let r = renders w rp;
          tile1 = (tilemem r t)\<lparr>painted := False, area := a\<rparr>;
          tile2 = tile1\<lparr>region := snd (im_region_buffer E (region tile1) a)\<rparr>;
          r1 = r\<lparr>tilemem := (tilemem r)(t := tile2),
                 tiles := AList.update (key_of (area tile2)) t (tiles r)\<rparr>
      in if notify r \<and> have_threads E then
           render_dirty_put rp (set_render rp (r1\<lparr>dirty := t # dirty r1\<rparr>) w)
         else
           let tile3 = tile2\<lparr>region := snd (im_prepare E (region tile2) (area tile2)),
                            painted := True\<rparr>
           in set_render rp (r1\<lparr>tilemem := (tilemem r1)(t := tile3)\<rparr>) w)"

definition tile_test_clean_ticks ::
  "(tile_ptr \<Rightarrow> Tile) \<Rightarrow> tile_key \<times> tile_ptr \<Rightarrow> tile_ptr option \<Rightarrow> tile_ptr option" where
  "tile_test_clean_ticks mem kv best =
     (let v = snd kv
      in if painted (mem v) then
           (case best of
              None \<Rightarrow> Some v
            | Some b \<Rightarrow> if Tile.ticks (mem v) < Tile.ticks (mem b) then Some v else best)
         else best)"

definition render_tile_get_painted :: "Render \<Rightarrow> tile_ptr option" where
  "render_tile_get_painted r = fold (tile_test_clean_ticks (tilemem r)) (tiles r) None"

definition render_tile_get_dirty :: "Render \<Rightarrow> tile_ptr option \<times> Render" where
  "render_tile_get_dirty r =
     (if dirty r = [] then (None, r)
      else
        let tile = last (dirty r)
        in (Some tile, r\<lparr>dirty := remove1 tile (dirty r)\<rparr>))"

text \<open>
  The three branches of \<^verbatim>\<open>tile_request\<close>; \<open>tile_reuse\<close> is the tail of the
  third one, from \<^verbatim>\<open>g_hash_table_remove\<close> on.
\<close>

definition tile_reuse :: "env \<Rightarrow> render_ptr \<Rightarrow> tile_ptr \<Rightarrow> Rect \<Rightarrow> world \<Rightarrow> world" where
  "tile_reuse E rp t a w =
     (let r = renders w rp;
          r1 = r\<lparr>tiles := AList.delete (key_of (area (tilemem r t))) (tiles r)\<rparr>
      in tile_queue E rp t a (set_render rp r1 w))"

definition touch :: "render_ptr \<Rightarrow> tile_ptr \<Rightarrow> world \<Rightarrow> world" where
  "touch rp t w = set_render rp (tile_touch t (renders w rp)) w"

definition tile_request :: "env \<Rightarrow> render_ptr \<Rightarrow> Rect \<Rightarrow> world \<Rightarrow> tile_ptr option \<times> world" where
  "tile_request E rp a w =
     (let r = renders w rp
      in case render_tile_lookup r a of
           Some t \<Rightarrow>
             if \<not> painted (tilemem r t) \<or> invalid (region (tilemem r t)) then
               (Some t, touch rp t (tile_queue E rp t a w))
             else (Some t, touch rp t w)
         | None \<Rightarrow>
             if ntiles r < max_tiles r \<or> max_tiles r = - 1 then
               (case tile_new E r of
                  (None, r') \<Rightarrow> (None, set_render rp r' w)
                | (Some t, r') \<Rightarrow>
                    (Some t, touch rp t (tile_queue E rp t a (set_render rp r' w))))
             else
               (case render_tile_get_painted r of
                  Some t \<Rightarrow> (Some t, touch rp t (tile_reuse E rp t a w))
                | None \<Rightarrow>
                    (case render_tile_get_dirty r of
                       (None, r') \<Rightarrow> (None, set_render rp r' w)
                     | (Some t, r') \<Rightarrow>
                         (Some t, touch rp t (tile_reuse E rp t a (set_render rp r' w))))))"

subsection \<open>The request path\<close>

text \<open>
  One \<^verbatim>\<open>memcpy\<close> of \<^verbatim>\<open>tile_copy\<close>: the pels of row \<open>y\<close> from
  \<open>ovlap.left\<close> on, \<open>ovlap.width\<close> of them.
\<close>

definition memcpy_row :: "REGION \<Rightarrow> Rect \<Rightarrow> int \<Rightarrow> REGION \<Rightarrow> REGION" where
  "memcpy_row src ovlap y dst =
     dst\<lparr>pels := (\<lambda>(x, y'). if y' = y \<and> left ovlap \<le> x \<and> x < left ovlap + width ovlap
                             then pels src (x, y') else pels dst (x, y'))\<rparr>"

text \<open>\<^verbatim>\<open>tile_copy\<close>; \<open>None\<close> is the failure of its assertion.\<close>

definition tile_copy :: "Tile \<Rightarrow> REGION \<Rightarrow> REGION option" where
  "tile_copy tile dst =
     (let ovlap = im_rect_intersectrect (area tile) (valid dst)
      in if im_rect_isempty ovlap then None
         else if painted tile \<and> \<not> invalid (region tile) then
           Some (fold (memcpy_row (region tile) ovlap)
                   [Rect.top ovlap..IM_RECT_BOTTOM ovlap - 1] dst)
         else Some (im_region_paint dst ovlap 0))"

text \<open>The body of the loops of \<^verbatim>\<open>region_fill\<close>, for the grid cell at \<open>(x, y)\<close>.\<close>

definition region_fill_body ::
  "env \<Rightarrow> render_ptr \<Rightarrow> int \<Rightarrow> int \<Rightarrow> world \<times> REGION \<Rightarrow> (world \<times> REGION) result" where
  "region_fill_body E rp x y st =
     (case st of (w, out) \<Rightarrow>
        let render = renders w rp;
            a = \<lparr>left = x, top = y, width = tile_width render, height = tile_height render\<rparr>
        in case tile_request E rp a w of
             (None, w') \<Rightarrow> Inr (w', out)
           | (Some t, w') \<Rightarrow>
               (case tile_copy (tilemem (renders w' rp) t) out of
                  None \<Rightarrow> Inl (Assertion_failed, w')
                | Some out' \<Rightarrow> Inr (w', out')))"

lemma tile_copy_valid: "tile_copy tile dst = Some dst' \<Longrightarrow> valid dst' = valid dst"
proof -
  have f: "valid (fold (memcpy_row src ov) ys d) = valid d" for src ov ys d
    by (induction ys arbitrary: d) (simp_all add: memcpy_row_def)
  assume "tile_copy tile dst = Some dst'"
  then show ?thesis
    by (auto simp: tile_copy_def Let_def f im_region_paint_def split: if_splits)
qed

lemma region_fill_body_valid:
  "region_fill_body E rp x y (w, out) = Inr (w', out') \<Longrightarrow> valid out' = valid out"
  by (auto simp: region_fill_body_def Let_def split: prod.splits option.splits
           dest: tile_copy_valid)

text \<open>
  The inner loop, over \<open>x\<close>. With a tile width that is not positive the loop
  never leaves; \<open>x += render->tile_width\<close> overflows when the sum is beyond
  \<open>INT_MAX\<close>.
\<close>

function region_fill_x ::
  "env \<Rightarrow> render_ptr \<Rightarrow> int \<Rightarrow> int \<Rightarrow> world \<times> REGION \<Rightarrow> (world \<times> REGION) result" where
  "region_fill_x E rp y x st =
     (if x < IM_RECT_RIGHT (valid (snd st)) then
        (case region_fill_body E rp x y st of
           Inl e \<Rightarrow> Inl e
         | Inr st' \<Rightarrow>
             if tile_width (renders (fst st') rp) \<le> 0 then Inl (Loops_forever, fst st')
             else if INT_MAX < x + tile_width (renders (fst st') rp)
             then Inl (Integer_overflow, fst st')
             else region_fill_x E rp y (x + tile_width (renders (fst st') rp)) st')
      else Inr st)"
  by pat_completeness auto
termination
proof (relation "measure (\<lambda>(E, rp, y, x, st). nat (IM_RECT_RIGHT (valid (snd st)) - x))")
  show "wf (measure (\<lambda>(E, rp, y, x, st). nat (IM_RECT_RIGHT (valid (snd st)) - x)))"
    by simp
next
  fix E rp y x st st'
  assume a: "x < IM_RECT_RIGHT (valid (snd st))"
    and b: "region_fill_body E rp x y st = Inr st'"
    and c: "\<not> tile_width (renders (fst st') rp) \<le> 0"
    and o: "\<not> INT_MAX < x + tile_width (renders (fst st') rp)"
  from b have "valid (snd st') = valid (snd st)"
    using region_fill_body_valid [of E rp x y "fst st" "snd st" "fst st'" "snd st'"] by simp
  with a c show "((E, rp, y, x + tile_width (renders (fst st') rp), st'), (E, rp, y, x, st))
      \<in> measure (\<lambda>(E, rp, y, x, st). nat (IM_RECT_RIGHT (valid (snd st)) - x))"
    by simp
qed

declare region_fill_x.simps [simp del]

lemma region_fill_x_valid:
  "region_fill_x E rp y x st = Inr st' \<Longrightarrow> valid (snd st') = valid (snd st)"
proof (induction E rp y x st rule: region_fill_x.induct)
  case (1 E rp y x st)
  show ?case
  proof (cases "x < IM_RECT_RIGHT (valid (snd st))")
    case False
    with "1.prems" show ?thesis by (simp add: region_fill_x.simps [of E rp y x st])
  next
    case True
    with "1.prems" obtain st1 where b: "region_fill_body E rp x y st = Inr st1"
      and c: "\<not> tile_width (renders (fst st1) rp) \<le> 0"
      and o: "\<not> INT_MAX < x + tile_width (renders (fst st1) rp)"
      and d: "region_fill_x E rp y (x + tile_width (renders (fst st1) rp)) st1 = Inr st'"
      by (auto simp: region_fill_x.simps [of E rp y x st] split: sum.splits if_splits)
    from b have "valid (snd st1) = valid (snd st)"
      using region_fill_body_valid [of E rp x y "fst st" "snd st" "fst st1" "snd st1"] by simp
    with "1.IH" [OF True b c o d] show ?thesis by simp
  qed
qed

text \<open>
  The outer loop, over \<open>y\<close>; each row starts again at \<open>xs\<close>. The same holds of
  \<open>y += render->tile_height\<close>.
\<close>

function region_fill_y ::
  "env \<Rightarrow> render_ptr \<Rightarrow> int \<Rightarrow> int \<Rightarrow> world \<times> REGION \<Rightarrow> (world \<times> REGION) result" where
  "region_fill_y E rp xs y st =
     (if y < IM_RECT_BOTTOM (valid (snd st)) then
        (case region_fill_x E rp y xs st of
           Inl e \<Rightarrow> Inl e
         | Inr st' \<Rightarrow>
             if tile_height (renders (fst st') rp) \<le> 0 then Inl (Loops_forever, fst st')
             else if INT_MAX < y + tile_height (renders (fst st') rp)
             then Inl (Integer_overflow, fst st')
             else region_fill_y E rp xs (y + tile_height (renders (fst st') rp)) st')
      else Inr st)"
  by pat_completeness auto
termination
proof (relation "measure (\<lambda>(E, rp, xs, y, st). nat (IM_RECT_BOTTOM (valid (snd st)) - y))")
  show "wf (measure (\<lambda>(E, rp, xs, y, st). nat (IM_RECT_BOTTOM (valid (snd st)) - y)))"
    by simp
next
  fix E rp xs y st st'
  assume a: "y < IM_RECT_BOTTOM (valid (snd st))"
    and b: "region_fill_x E rp y xs st = Inr st'"
    and c: "\<not> tile_height (renders (fst st') rp) \<le> 0"
    and o: "\<not> INT_MAX < y + tile_height (renders (fst st') rp)"
  from b have "valid (snd st') = valid (snd st)"
    by (rule region_fill_x_valid)
  with a c show "((E, rp, xs, y + tile_height (renders (fst st') rp), st'), (E, rp, xs, y, st))
      \<in> measure (\<lambda>(E, rp, xs, y, st). nat (IM_RECT_BOTTOM (valid (snd st)) - y))"
    by simp
qed

declare region_fill_y.simps [simp del]

text \<open>
  \<^verbatim>\<open>region_fill\<close>: the result is the C result (always 0), the world and the
  output region. The divisions trap on a tile size of zero.
\<close>

definition region_fill :: "env \<Rightarrow> render_ptr \<Rightarrow> REGION \<Rightarrow> world \<Rightarrow> (int \<times> world \<times> REGION) result" where
  "region_fill E rp out w =
     (let render = renders w rp; r = valid out
      in if tile_width render = 0 \<or> tile_height render = 0 then Inl (Division_by_zero, w)
         else
           let xs = (left r sdiv tile_width render) * tile_width render;
               ys = (Rect.top r sdiv tile_height render) * tile_height render
           in case region_fill_y E rp xs ys (w, out) of
                Inl e \<Rightarrow> Inl e
              | Inr (w', out') \<Rightarrow> Inr (0, w', out'))"

text \<open>
  The body of the loops of \<^verbatim>\<open>mask_fill\<close>, and the loops, with the same counters as
  those of \<^verbatim>\<open>region_fill\<close>.
\<close>

definition mask_fill_body :: "render_ptr \<Rightarrow> int \<Rightarrow> int \<Rightarrow> world \<times> REGION \<Rightarrow> world \<times> REGION" where
  "mask_fill_body rp x y st =
     (case st of (w, out) \<Rightarrow>
        let render = renders w rp;
            a = \<lparr>left = x, top = y, width = tile_width render, height = tile_height render\<rparr>
        in case render_tile_lookup render a of
             None \<Rightarrow> (w, im_region_paint out a 0)
           | Some t \<Rightarrow>
               (w, im_region_paint out a
                     (if painted (tilemem render t) \<and> \<not> invalid (region (tilemem render t))
                      then 255 else 0)))"

lemma mask_fill_body_valid: "valid (snd (mask_fill_body rp x y st)) = valid (snd st)"
  by (cases st) (simp add: mask_fill_body_def Let_def im_region_paint_def split: option.splits)

function mask_fill_x ::
  "render_ptr \<Rightarrow> int \<Rightarrow> int \<Rightarrow> world \<times> REGION \<Rightarrow> (world \<times> REGION) result" where
  "mask_fill_x rp y x st =
     (if x < IM_RECT_RIGHT (valid (snd st)) then
        let st' = mask_fill_body rp x y st
        in if tile_width (renders (fst st') rp) \<le> 0 then Inl (Loops_forever, fst st')
           else if INT_MAX < x + tile_width (renders (fst st') rp)
           then Inl (Integer_overflow, fst st')
           else mask_fill_x rp y (x + tile_width (renders (fst st') rp)) st'
      else Inr st)"
  by pat_completeness auto
termination
  by (relation "measure (\<lambda>(rp, y, x, st). nat (IM_RECT_RIGHT (valid (snd st)) - x))")
     (simp_all add: mask_fill_body_valid)

declare mask_fill_x.simps [simp del]

lemma mask_fill_x_valid:
  "mask_fill_x rp y x st = Inr st' \<Longrightarrow> valid (snd st') = valid (snd st)"
proof (induction rp y x st rule: mask_fill_x.induct)
  case (1 rp y x st)
  show ?case
  proof (cases "x < IM_RECT_RIGHT (valid (snd st))")
    case False
    with "1.prems" show ?thesis by (simp add: mask_fill_x.simps [of rp y x st])
  next
    case True
    let ?st1 = "mask_fill_body rp x y st"
    from True "1.prems" have c: "\<not> tile_width (renders (fst ?st1) rp) \<le> 0"
      and o: "\<not> INT_MAX < x + tile_width (renders (fst ?st1) rp)"
      and d: "mask_fill_x rp y (x + tile_width (renders (fst ?st1) rp)) ?st1 = Inr st'"
      by (auto simp: mask_fill_x.simps [of rp y x st] Let_def split: if_splits)
    from "1.IH" [OF True refl c o d] show ?thesis by (simp add: mask_fill_body_valid)
  qed
qed

function mask_fill_y ::
  "render_ptr \<Rightarrow> int \<Rightarrow> int \<Rightarrow> world \<times> REGION \<Rightarrow> (world \<times> REGION) result" where
  "mask_fill_y rp xs y st =
     (if y < IM_RECT_BOTTOM (valid (snd st)) then
        (case mask_fill_x rp y xs st of
           Inl e \<Rightarrow> Inl e
         | Inr st' \<Rightarrow>
             if tile_height (renders (fst st') rp) \<le> 0 then Inl (Loops_forever, fst st')
             else if INT_MAX < y + tile_height (renders (fst st') rp)
             then Inl (Integer_overflow, fst st')
             else mask_fill_y rp xs (y + tile_height (renders (fst st') rp)) st')
      else Inr st)"
  by pat_completeness auto
termination
proof (relation "measure (\<lambda>(rp, xs, y, st). nat (IM_RECT_BOTTOM (valid (snd st)) - y))")
  show "wf (measure (\<lambda>(rp, xs, y, st). nat (IM_RECT_BOTTOM (valid (snd st)) - y)))"
    by simp
next
  fix rp xs y st st'
  assume a: "y < IM_RECT_BOTTOM (valid (snd st))"
    and b: "mask_fill_x rp y xs st = Inr st'"
    and c: "\<not> tile_height (renders (fst st') rp) \<le> 0"
    and o: "\<not> INT_MAX < y + tile_height (renders (fst st') rp)"
  from b have "valid (snd st') = valid (snd st)"
    by (rule mask_fill_x_valid)
  with a c show "((rp, xs, y + tile_height (renders (fst st') rp), st'), (rp, xs, y, st))
      \<in> measure (\<lambda>(rp, xs, y, st). nat (IM_RECT_BOTTOM (valid (snd st)) - y))"
    by simp
qed

declare mask_fill_y.simps [simp del]

definition mask_fill :: "render_ptr \<Rightarrow> REGION \<Rightarrow> world \<Rightarrow> (int \<times> world \<times> REGION) result" where
  "mask_fill rp out w =
     (let render = renders w rp; r = valid out
      in if tile_width render = 0 \<or> tile_height render = 0 then Inl (Division_by_zero, w)
         else
           let xs = (left r sdiv tile_width render) * tile_width render;
               ys = (Rect.top r sdiv tile_height render) * tile_height render
           in case mask_fill_y rp xs ys (w, out) of
                Inl e \<Rightarrow> Inl e
              | Inr (w', out') \<Rightarrow> Inr (0, w', out'))"

subsection \<open>Concrete sinks\<close>

text \<open>
  The inputs the theorems are tried on: memory that comes back from the allocator
  with the contents of a tile used before, a producer that paints every pel with 1,
  and sinks with tiles of 2 by 2 pels.
\<close>

definition blank :: REGION where
  "blank = \<lparr>valid = \<lparr>left = 0, top = 0, width = 0, height = 0\<rparr>, invalid = False,
     pels = (\<lambda>p. 0)\<rparr>"

definition stale_tile :: Tile where
  "stale_tile = \<lparr>area = \<lparr>left = 7, top = 7, width = 7, height = 7\<rparr>, painted = True,
     region = blank, ticks = 99\<rparr>"

definition demo_env :: "bool \<Rightarrow> env" where
  "demo_env threads =
     \<lparr>have_threads = threads,
      IM_NEW = (\<lambda>n. Some stale_tile),
      im_region_create = (\<lambda>n. Some blank),
      im_region_buffer = (\<lambda>reg a. (0, reg\<lparr>valid := a, invalid := False\<rparr>)),
      im_prepare = (\<lambda>reg a. (0, reg\<lparr>pels := (\<lambda>p. 1)\<rparr>)),
      im_prepare_to = (\<lambda>reg a. (0, reg\<lparr>pels := (\<lambda>p. 1)\<rparr>))\<rparr>"

definition no_memory_env :: env where
  "no_memory_env = (demo_env True)\<lparr>im_region_create := (\<lambda>n. None)\<rparr>"

definition demo_render :: "int \<Rightarrow> bool \<Rightarrow> Render" where
  "demo_render mt nfy = render_new 2 2 mt 0 nfy False (\<lambda>t. stale_tile)"

lemmas demo_defs =
  demo_env_def no_memory_env_def demo_render_def render_new_def stale_tile_def blank_def

definition demo_world :: "Render \<Rightarrow> world" where
  "demo_world r = \<lparr>renders = (\<lambda>rp. r), render_dirty_all = [], render_dirty_sem = 0,
     render_reschedule = False, notified = []\<rparr>"

definition cell :: "int \<Rightarrow> int \<Rightarrow> Rect" where
  "cell x y = \<lparr>left = x, top = y, width = 2, height = 2\<rparr>"

text \<open>An asynchronous sink after requests for the cells at (0, 0) and (2, 0).\<close>

definition two_dirty :: world where
  "two_dirty = snd (tile_request (demo_env True) 0 (cell 2 0)
                 (snd (tile_request (demo_env True) 0 (cell 0 0)
                    (demo_world (demo_render 2 True)))))"

text \<open>A synchronous sink after requests for the cells at (0, 0) and (2, 0).\<close>

definition two_painted :: world where
  "two_painted = snd (tile_request (demo_env False) 0 (cell 2 0)
                   (snd (tile_request (demo_env False) 0 (cell 0 0)
                      (demo_world (demo_render 2 False)))))"

text \<open>The asynchronous sink after the worker has taken both dirty tiles.\<close>

definition all_taken :: world where
  "all_taken = snd (render_allocate 0 (snd (render_allocate 0
                 (two_dirty\<lparr>render_reschedule := False\<rparr>))))"

text \<open>The invalid flag of a region is set from outside \<^verbatim>\<open>sinkscreen.c\<close>.\<close>

definition invalidate :: "render_ptr \<Rightarrow> tile_ptr \<Rightarrow> world \<Rightarrow> world" where
  "invalidate rp t w =
     (let r = renders w rp; tile = tilemem r t
      in set_render rp
           (r\<lparr>tilemem := (tilemem r)(t := tile\<lparr>region := (region tile)\<lparr>invalid := True\<rparr>\<rparr>)\<rparr>) w)"

text \<open>An output region whose pels are all 5 before it is filled.\<close>

definition out_region :: "Rect \<Rightarrow> REGION" where
  "out_region r = \<lparr>valid = r, invalid = False, pels = (\<lambda>p. 5)\<rparr>"

text \<open>
  The capacity invariant of a sink, and runs of the operations a consumer drives:
  single requests for a tile and fills of an output region. A fill that does not
  return ends the run, with the world as it was left.
\<close>

definition capacity_ok :: "Render \<Rightarrow> bool" where
  "capacity_ok r =
     (int (length (all r)) = ntiles r \<and> (0 \<le> max_tiles r \<longrightarrow> ntiles r \<le> max_tiles r))"

datatype request = Request Rect | Fill REGION

fun run :: "env \<Rightarrow> render_ptr \<Rightarrow> request list \<Rightarrow> world \<Rightarrow> world" where
  "run E rp [] w = w"
| "run E rp (Request a # ops) w = run E rp ops (snd (tile_request E rp a w))"
| "run E rp (Fill out # ops) w =
     (case region_fill E rp out w of
        Inl (e, w') \<Rightarrow> w'
      | Inr (rc, w', out') \<Rightarrow> run E rp ops w')"

definition three_requests :: "request list" where
  "three_requests = [Request (cell 0 0), Fill (out_region (cell 2 0)), Request (cell 4 0)]"

text \<open>
  The value \<^verbatim>\<open>mask_fill\<close> paints for a cell: 255 when there is a tile at the cell
  that is painted and whose region is not invalid, and 0 otherwise.
\<close>

definition mask_value :: "Render \<Rightarrow> Rect \<Rightarrow> nat" where
  "mask_value r a =
     (case render_tile_lookup r a of
        None \<Rightarrow> 0
      | Some t \<Rightarrow> if painted (tilemem r t) \<and> \<not> invalid (region (tilemem r t)) then 255 else 0)"

text \<open>An output rectangle over three cells.\<close>

definition strip :: Rect where
  "strip = \<lparr>left = 0, top = 0, width = 6, height = 2\<rparr>"

text \<open>
  For the scheduler: a comparison function agrees with a key on a set when it is
  not positive exactly where the first key is at most the second. The priorities
  of a set of sinks are in range when the difference of the priorities of any two
  of them fits an \<^verbatim>\<open>int\<close>. The list of the scheduler is sorted when priorities
  never increase along it. Runs of the scheduler are made of \<open>render_dirty_put\<close> and
  \<open>render_dirty_get\<close>; a get that does not return ends the run; \<open>puts\<close> are the
  sinks a run puts.
\<close>

definition agrees :: "('a \<Rightarrow> 'a \<Rightarrow> int) \<Rightarrow> ('a \<Rightarrow> int) \<Rightarrow> 'a set \<Rightarrow> bool" where
  "agrees cmp f S = (\<forall>a \<in> S. \<forall>b \<in> S. (cmp a b \<le> 0) = (f a \<le> f b))"

definition prio_ok :: "world \<Rightarrow> render_ptr set \<Rightarrow> bool" where
  "prio_ok w S =
     (\<forall>a \<in> S. \<forall>b \<in> S.
        - INT_MAX - 1 \<le> priority (renders w b) - priority (renders w a) \<and>
        priority (renders w b) - priority (renders w a) \<le> INT_MAX)"

definition queue_sorted :: "world \<Rightarrow> bool" where
  "queue_sorted w =
     sorted_wrt (\<lambda>a b. priority (renders w b) \<le> priority (renders w a)) (render_dirty_all w)"

datatype sched_op = Put render_ptr | Get

fun run_sched :: "sched_op list \<Rightarrow> world \<Rightarrow> world" where
  "run_sched [] w = w"
| "run_sched (Put rp # ops) w = run_sched ops (render_dirty_put rp w)"
| "run_sched (Get # ops) w =
     (case render_dirty_get w of
        Inl (e, w') \<Rightarrow> w'
      | Inr (res, w') \<Rightarrow> run_sched ops w')"

fun puts :: "sched_op list \<Rightarrow> render_ptr set" where
  "puts [] = {}"
| "puts (Put rp # ops) = insert rp (puts ops)"
| "puts (Get # ops) = puts ops"

definition sched_inv :: "world \<Rightarrow> render_ptr set \<Rightarrow> bool" where
  "sched_inv w S =
     (prio_ok w S \<and> set (render_dirty_all w) \<subseteq> S \<and> queue_sorted w \<and>
      distinct (render_dirty_all w))"

text \<open>
  Sinks that all have a dirty tile: with equal priorities, and with priority 5 for
  sink 1 and priority 0 for the others.
\<close>

definition two_sinks :: world where
  "two_sinks = demo_world ((demo_render 2 True)\<lparr>dirty := [1]\<rparr>)"

definition three_sinks :: world where
  "three_sinks = two_sinks\<lparr>renders := (renders two_sinks)(1 := (renders two_sinks 1)\<lparr>priority := 5\<rparr>)\<rparr>"

text \<open>Sink 0 with the largest priority an \<^verbatim>\<open>int\<close> holds, the others with priority -2.\<close>

definition extreme_sinks :: world where
  "extreme_sinks =
     (demo_world ((demo_render 2 True)\<lparr>dirty := [1], priority := - 2\<rparr>))
       \<lparr>renders := (\<lambda>rp. (demo_render 2 True)\<lparr>dirty := [1], priority := - 2\<rparr>)
            (0 := (demo_render 2 True)\<lparr>dirty := [1], priority := 2147483647\<rparr>)\<rparr>"

text \<open>A producer whose \<^verbatim>\<open>im_prepare\<close> fails and leaves the region as it was.\<close>

definition failing_env :: "bool \<Rightarrow> env" where
  "failing_env threads =
     (demo_env threads)\<lparr>im_prepare := (\<lambda>reg a. (- 1, reg)),
                         im_prepare_to := (\<lambda>reg a. (- 1, reg))\<rparr>"


text \<open>An output rectangle whose right edge is \<open>INT_MAX\<close>.\<close>

definition brink :: Rect where
  "brink = \<lparr>left = 2147483646, top = 0, width = 1, height = 1\<rparr>"



text \<open>
  For the proofs about capacity: two renders with the same tile store, the world a
  loop ends in (returned or not), and a step that keeps the capacity invariant and
  \<open>max_tiles\<close>.
\<close>

definition same_store :: "Render \<Rightarrow> Render \<Rightarrow> bool" where
  "same_store r r' = (all r' = all r \<and> ntiles r' = ntiles r \<and> max_tiles r' = max_tiles r)"

definition result_world :: "(world \<times> REGION) result \<Rightarrow> world" where
  "result_world res = (case res of Inl (e, w) \<Rightarrow> w | Inr (w, out) \<Rightarrow> w)"

definition cap_step :: "render_ptr \<Rightarrow> world \<Rightarrow> world \<Rightarrow> bool" where
  "cap_step rp w w' =
     (capacity_ok (renders w rp) \<longrightarrow>
        capacity_ok (renders w' rp) \<and> max_tiles (renders w' rp) = max_tiles (renders w rp))"

section \<open>Properties\<close>

subsection \<open>Evaluation\<close>

lemma renders_set_render [simp]: "renders (set_render rp r w) = (renders w)(rp := r)"
  by (simp add: set_render_def)

lemma set_render_fields [simp]:
  "render_dirty_all (set_render rp r w) = render_dirty_all w"
  "render_dirty_sem (set_render rp r w) = render_dirty_sem w"
  "render_reschedule (set_render rp r w) = render_reschedule w"
  "notified (set_render rp r w) = notified w"
  by (simp_all add: set_render_def)

lemma g_slist_sort_Nil [simp]: "g_slist_sort cmp [] = []"
  by (simp add: g_slist_sort.simps)

lemma g_slist_sort_single [simp]: "g_slist_sort cmp [x] = [x]"
  by (simp add: g_slist_sort.simps)

lemmas request_defs = tile_request_def render_tile_lookup_def tile_new_def fresh_tile_def
  tile_queue_def tile_touch_def touch_def tile_reuse_def render_tile_get_painted_def
  render_tile_get_dirty_def tile_test_clean_ticks_def render_dirty_put_def key_of_def
  render_dirty_sort_def

lemma two_dirty_eval:
  "dirty (renders two_dirty 0) = [2, 1] \<and> render_dirty_all two_dirty = [0] \<and>
   ntiles (renders two_dirty 0) = 2 \<and>
   tiles (renders two_dirty 0) = [((0, 0), 1), ((2, 0), 2)] \<and> render_reschedule two_dirty"
  by (simp add: two_dirty_def request_defs demo_defs demo_world_def cell_def Let_def)

subsection \<open>tile_new\<close>

lemma fold_max_ge: "x \<in> set xs \<Longrightarrow> x \<le> fold max xs (m::nat)"
proof (induction xs arbitrary: m)
  case Nil
  then show ?case by simp
next
  case (Cons a xs)
  have mono: "m \<le> fold max ys (m::nat)" for ys m
    by (induction ys arbitrary: m) (auto intro: order_trans [OF max.cobounded2])
  show ?case
  proof (cases "x = a")
    case True
    then show ?thesis using mono [of "max a m" xs] by simp
  next
    case False
    with Cons show ?thesis by simp
  qed
qed

lemma fresh_tile_notin: "fresh_tile r \<notin> set (all r)"
  using fold_max_ge [of "fresh_tile r" "all r" 0] by (auto simp: fresh_tile_def)

text \<open>
  What \<open>tile_new\<close> writes: on success the tile was not in \<open>all\<close>, its area is the
  zero rectangle, its ticks are the sink's current ticks, its region is the one
  \<open>im_region_create\<close> has just made, and its painted flag is whatever the allocated
  memory held; the tile is put in front of \<open>all\<close>, \<open>ntiles\<close> grows by one, and nothing
  else of the sink changes. When an allocation fails the result is null and \<open>all\<close>
  and \<open>ntiles\<close> (and every field of the C structure) are as before.
\<close>

lemma tile_new_fields:
  assumes "tile_new E r = (res, r')"
  shows "case res of
      Some t \<Rightarrow>
        (\<exists>raw reg. IM_NEW E (nalloc r) = Some raw \<and> im_region_create E (nalloc r) = Some reg \<and>
           tilemem r' t = \<lparr>area = \<lparr>left = 0, top = 0, width = 0, height = 0\<rparr>,
                           painted = painted raw, region = reg, ticks = ticks r\<rparr>) \<and>
        t \<notin> set (all r) \<and> all r' = t # all r \<and> ntiles r' = ntiles r + 1 \<and>
        r' = r\<lparr>tilemem := (tilemem r)(t := tilemem r' t), all := t # all r,
               ntiles := ntiles r + 1, nalloc := Suc (nalloc r)\<rparr>
    | None \<Rightarrow>
        (IM_NEW E (nalloc r) = None \<or> im_region_create E (nalloc r) = None) \<and>
        r' = r\<lparr>nalloc := Suc (nalloc r)\<rparr> \<and> all r' = all r \<and> ntiles r' = ntiles r"
  using assms fresh_tile_notin [of r]
  by (auto simp: tile_new_def Let_def split: option.splits)

lemma tile_new_demo:
  "fst (tile_new (demo_env True) (demo_render 2 True)) = Some 1 \<and>
   all (snd (tile_new (demo_env True) (demo_render 2 True))) = [1] \<and>
   ntiles (snd (tile_new (demo_env True) (demo_render 2 True))) = 1 \<and>
   fst (tile_new no_memory_env (demo_render 2 True)) = None \<and>
   all (snd (tile_new no_memory_env (demo_render 2 True))) = [] \<and>
   ntiles (snd (tile_new no_memory_env (demo_render 2 True))) = 0"
proof -
  have a: "fst (tile_new (demo_env True) (demo_render 2 True)) = Some 1"
    by (simp add: tile_new_def fresh_tile_def demo_defs)
  have b: "fst (tile_new no_memory_env (demo_render 2 True)) = None"
    by (simp add: tile_new_def fresh_tile_def demo_defs)
  have c: "all (demo_render 2 True) = [] \<and> ntiles (demo_render 2 True) = 0"
    by (simp add: demo_defs)
  note p = tile_new_fields [OF prod.collapse [symmetric], of "demo_env True" "demo_render 2 True"]
  note q = tile_new_fields [OF prod.collapse [symmetric], of no_memory_env "demo_render 2 True"]
  from p q show ?thesis unfolding a b using c by simp
qed


text \<open>
  C9, on the code: \<open>tile_new\<close> writes the fields \<open>render\<close>, \<open>region\<close>, \<open>area\<close> and \<open>ticks\<close>
  of the tile it has allocated, and never \<open>painted\<close>. Here the allocator returns
  memory whose painted flag is set, as memory that held a painted tile does: the
  tile that \<open>tile_new\<close> returns has the other fields as the spec says (zero area, the
  ticks of the sink, first in \<open>all\<close>, \<open>ntiles\<close> one more) and says it is painted,
  though nothing was ever painted into it.
\<close>

theorem tile_new_leaves_painted:
  "IM_NEW (demo_env True) (nalloc (demo_render 2 True)) = Some stale_tile \<and> painted stale_tile \<and>
   fst (tile_new (demo_env True) (demo_render 2 True)) = Some 1 \<and>
   painted (tilemem (snd (tile_new (demo_env True) (demo_render 2 True))) 1) \<and>
   area (tilemem (snd (tile_new (demo_env True) (demo_render 2 True))) 1)
     = \<lparr>left = 0, top = 0, width = 0, height = 0\<rparr> \<and>
   Tile.ticks (tilemem (snd (tile_new (demo_env True) (demo_render 2 True))) 1)
     = ticks (demo_render 2 True) \<and>
   all (snd (tile_new (demo_env True) (demo_render 2 True))) = [1] \<and>
   ntiles (snd (tile_new (demo_env True) (demo_render 2 True))) = 1"
proof -
  have "IM_NEW (demo_env True) (nalloc (demo_render 2 True)) = Some stale_tile \<and> painted stale_tile"
    by (simp add: demo_defs)
  moreover have "fst (tile_new (demo_env True) (demo_render 2 True)) = Some 1 \<and>
   painted (tilemem (snd (tile_new (demo_env True) (demo_render 2 True))) 1) \<and>
   area (tilemem (snd (tile_new (demo_env True) (demo_render 2 True))) 1)
     = \<lparr>left = 0, top = 0, width = 0, height = 0\<rparr> \<and>
   Tile.ticks (tilemem (snd (tile_new (demo_env True) (demo_render 2 True))) 1)
     = ticks (demo_render 2 True) \<and>
   all (snd (tile_new (demo_env True) (demo_render 2 True))) = [1] \<and>
   ntiles (snd (tile_new (demo_env True) (demo_render 2 True))) = 1"
    by (simp add: tile_new_def fresh_tile_def demo_defs)
  ultimately show ?thesis by blast
qed

subsection \<open>The worker's allocator\<close>

text \<open>
  C6, as the spec states it: each step of \<open>render_allocate\<close> removes the tile at
  the tail of the dirty list. It does not hold. After requests for the cells (0, 0)
  and (2, 0) the dirty list is [2, 1], most recent first; the allocator hands out
  tile 2, the head, and leaves tile 1, the tail and the least recently queued.
\<close>

theorem render_allocate_tail_counterexample:
  "dirty (renders two_dirty 0) = [2, 1] \<and>
   fst (render_allocate 0 (two_dirty\<lparr>render_reschedule := False\<rparr>)) = (False, Some 2) \<and>
   dirty (renders (snd (render_allocate 0 (two_dirty\<lparr>render_reschedule := False\<rparr>))) 0) = [1]"
  using two_dirty_eval by (simp add: render_allocate_def Let_def)

text \<open>
  C6, amended: each step of the worker's allocator stops the pass when a reschedule
  is asked for or the dirty list is empty, and otherwise removes the tile at the
  head of the sink's dirty list. The dirty list is kept most recent first (a dirty
  tile that is touched, and a tile that is queued on an asynchronous sink, is the
  head), so the worker paints the most recently demanded dirty tile first.
\<close>

theorem render_allocate_head:
  "render_allocate rp w =
     (if render_reschedule w \<or> dirty (renders w rp) = [] then ((True, None), w)
      else ((False, Some (hd (dirty (renders w rp)))),
            set_render rp ((renders w rp)\<lparr>dirty := tl (dirty (renders w rp))\<rparr>) w)) \<and>
   (\<not> render_reschedule w \<and> \<not> painted (tilemem (renders w rp) t) \<and>
    t \<in> set (dirty (renders w rp)) \<longrightarrow>
      fst (render_allocate rp (touch rp t w)) = (False, Some t)) \<and>
   (notify (renders w rp) \<and> have_threads E \<longrightarrow>
      fst (render_allocate rp ((tile_queue E rp t a w)\<lparr>render_reschedule := False\<rparr>))
        = (False, Some t))"
proof (intro conjI impI)
  show "render_allocate rp w =
     (if render_reschedule w \<or> dirty (renders w rp) = [] then ((True, None), w)
      else ((False, Some (hd (dirty (renders w rp)))),
            set_render rp ((renders w rp)\<lparr>dirty := tl (dirty (renders w rp))\<rparr>) w))"
    by (cases "dirty (renders w rp)") (simp_all add: render_allocate_def Let_def)
next
  assume "\<not> render_reschedule w \<and> \<not> painted (tilemem (renders w rp) t) \<and>
    t \<in> set (dirty (renders w rp))"
  then show "fst (render_allocate rp (touch rp t w)) = (False, Some t)"
    by (simp add: render_allocate_def Let_def touch_def tile_touch_def)
next
  assume "notify (renders w rp) \<and> have_threads E"
  then show "fst (render_allocate rp ((tile_queue E rp t a w)\<lparr>render_reschedule := False\<rparr>))
        = (False, Some t)"
    by (simp add: render_allocate_def Let_def tile_queue_def render_dirty_put_def)
qed

text \<open>
  C6, witness: on the sink with dirty list [2, 1], touching tile 1 brings it to the
  head and the allocator hands it out; a tile queued anew is handed out first.
\<close>

theorem render_allocate_head_witness:
  "fst (render_allocate 0 (two_dirty\<lparr>render_reschedule := False\<rparr>)) = (False, Some 2) \<and>
   fst (render_allocate 0 (touch 0 1 (two_dirty\<lparr>render_reschedule := False\<rparr>)))
     = (False, Some 1) \<and>
   fst (render_allocate 0
         ((tile_queue (demo_env True) 0 1 (cell 0 0) two_dirty)\<lparr>render_reschedule := False\<rparr>))
     = (False, Some 1)"
proof -
  let ?w = "two_dirty\<lparr>render_reschedule := False\<rparr>"
  have d: "dirty (renders ?w 0) = [2, 1]" using two_dirty_eval by simp
  have p: "\<not> painted (tilemem (renders ?w 0) 1)"
    by (simp add: two_dirty_def request_defs demo_defs demo_world_def cell_def Let_def)
  have n: "notify (renders two_dirty 0) \<and> have_threads (demo_env True)"
    by (simp add: two_dirty_def request_defs demo_defs demo_world_def cell_def Let_def)
  from render_allocate_head [of 0 ?w 1 "demo_env True" "cell 0 0"]
    render_allocate_head [of 0 two_dirty 1 "demo_env True" "cell 0 0"] d p n
  show ?thesis by simp
qed

subsection \<open>The replacement policy\<close>


lemma set_render_same [simp]: "set_render rp (renders w rp) w = w"
  by (simp add: set_render_def)

lemma tiles_tile_touch [simp]: "tiles (tile_touch t r) = tiles r"
  by (simp add: tile_touch_def Let_def)

lemma renders_render_dirty_put [simp]: "renders (render_dirty_put rp w) = renders w"
  by (simp add: render_dirty_put_def)

lemma tiles_tile_queue:
  "tiles (renders (tile_queue E rp t a w) rp) = AList.update (key_of a) t (tiles (renders w rp))"
  by (simp add: tile_queue_def Let_def)

lemma area_tile_queue:
  "area (tilemem (renders (tile_queue E rp t a w) rp) t) = a"
  by (simp add: tile_queue_def Let_def)

lemma area_tile_touch [simp]: "area (tilemem (tile_touch t r) u) = area (tilemem r u)"
  by (simp add: tile_touch_def Let_def)

lemma get_painted_fold:
  assumes "fold (tile_test_clean_ticks mem) xs best = res"
    and "\<forall>b. best = Some b \<longrightarrow> painted (mem b)"
  shows "case res of
      None \<Rightarrow> best = None \<and> (\<forall>u \<in> snd ` set xs. \<not> painted (mem u))
    | Some t \<Rightarrow> painted (mem t) \<and> (Some t = best \<or> t \<in> snd ` set xs) \<and>
        (\<forall>u \<in> snd ` set xs. painted (mem u) \<longrightarrow> Tile.ticks (mem t) \<le> Tile.ticks (mem u)) \<and>
        (\<forall>b. best = Some b \<longrightarrow> Tile.ticks (mem t) \<le> Tile.ticks (mem b))"
  using assms
proof (induction xs arbitrary: best)
  case Nil
  then show ?case by (auto split: option.splits)
next
  case (Cons kv xs)
  let ?b1 = "tile_test_clean_ticks mem kv best"
  have p: "\<forall>b. ?b1 = Some b \<longrightarrow> painted (mem b)"
    using Cons.prems(2) by (auto simp: tile_test_clean_ticks_def Let_def split: option.splits if_splits)
  have f: "fold (tile_test_clean_ticks mem) xs ?b1 = res"
    using Cons.prems(1) by simp
  note ih = Cons.IH [OF f p]
  show ?case
  proof (cases res)
    case None
    with ih show ?thesis
      by (auto simp: tile_test_clean_ticks_def Let_def split: option.splits if_splits)
  next
    case (Some t)
    with ih show ?thesis
      by (cases best; cases "painted (mem (snd kv))";
          cases "Tile.ticks (mem (snd kv)) < Tile.ticks (mem (the best))")
         (auto simp: tile_test_clean_ticks_def Let_def)
  qed
qed

lemma render_tile_get_painted_None:
  "render_tile_get_painted r = None \<longleftrightarrow> (\<forall>u \<in> snd ` set (tiles r). \<not> painted (tilemem r u))"
proof
  assume n: "render_tile_get_painted r = None"
  from get_painted_fold [of "tilemem r" "tiles r" None None] n
  show "\<forall>u \<in> snd ` set (tiles r). \<not> painted (tilemem r u)"
    by (simp add: render_tile_get_painted_def)
next
  assume a: "\<forall>u \<in> snd ` set (tiles r). \<not> painted (tilemem r u)"
  show "render_tile_get_painted r = None"
  proof (cases "render_tile_get_painted r")
    case None then show ?thesis .
  next
    case (Some t)
    from get_painted_fold [of "tilemem r" "tiles r" None "Some t"] Some a
    show ?thesis by (auto simp: render_tile_get_painted_def)
  qed
qed

lemma render_tile_get_painted_Some:
  assumes "render_tile_get_painted r = Some t"
  shows "t \<in> snd ` set (tiles r) \<and> painted (tilemem r t) \<and>
     (\<forall>u \<in> snd ` set (tiles r). painted (tilemem r u) \<longrightarrow>
        Tile.ticks (tilemem r t) \<le> Tile.ticks (tilemem r u))"
  using get_painted_fold [of "tilemem r" "tiles r" None "Some t"] assms
  by (simp add: render_tile_get_painted_def)

text \<open>
  C3: a request for a grid position without a tile, on a full cache
  (\<open>ntiles = max_tiles\<close>, \<open>max_tiles \<noteq> -1\<close>). If the table holds a painted tile,
  the tile reused is a painted tile of the table whose ticks are least among the
  painted tiles; if it holds none and the dirty list is not empty, the tile reused is
  the last of the dirty list. In both cases the entry under the key of the tile's
  old area is deleted from the table and then the tile is queued at the new area, so
  the table is the old one with the old key deleted and the new key bound to the
  tile. If there is neither a painted nor a dirty tile the result is null and
  nothing changes.
\<close>

theorem tile_request_replacement:
  assumes "render_tile_lookup (renders w rp) a = None"
    and "ntiles (renders w rp) = max_tiles (renders w rp)"
    and "max_tiles (renders w rp) \<noteq> - 1"
    and "r = renders w rp"
    and "tile_request E rp a w = (res, w')"
  shows "if \<exists>u \<in> snd ` set (tiles r). painted (tilemem r u) then
      \<exists>t. res = Some t \<and> t \<in> snd ` set (tiles r) \<and> painted (tilemem r t) \<and>
        (\<forall>u \<in> snd ` set (tiles r). painted (tilemem r u) \<longrightarrow>
           Tile.ticks (tilemem r t) \<le> Tile.ticks (tilemem r u)) \<and>
        w' = touch rp t (tile_queue E rp t a
               (set_render rp (r\<lparr>tiles := AList.delete (key_of (area (tilemem r t))) (tiles r)\<rparr>) w)) \<and>
        tiles (renders w' rp) =
          AList.update (key_of a) t (AList.delete (key_of (area (tilemem r t))) (tiles r)) \<and>
        area (tilemem (renders w' rp) t) = a
    else if dirty r \<noteq> [] then
      res = Some (last (dirty r)) \<and>
      w' = touch rp (last (dirty r)) (tile_queue E rp (last (dirty r)) a
             (set_render rp (r\<lparr>dirty := remove1 (last (dirty r)) (dirty r),
                tiles := AList.delete (key_of (area (tilemem r (last (dirty r))))) (tiles r)\<rparr>) w)) \<and>
      tiles (renders w' rp) =
        AList.update (key_of a) (last (dirty r))
          (AList.delete (key_of (area (tilemem r (last (dirty r))))) (tiles r)) \<and>
      area (tilemem (renders w' rp) (last (dirty r))) = a
    else res = None \<and> w' = w"
proof (cases "render_tile_get_painted r")
  case (Some t)
  note s = render_tile_get_painted_Some [OF Some]
  have e: "\<exists>u \<in> snd ` set (tiles r). painted (tilemem r u)" using s by blast
  have "res = Some t \<and> w' = touch rp t (tile_reuse E rp t a w)"
    using assms Some by (auto simp: tile_request_def Let_def)
  then show ?thesis using e s assms(4)
    by (simp add: tile_reuse_def Let_def touch_def tiles_tile_queue area_tile_queue)
next
  case None
  then have ne: "\<not> (\<exists>u \<in> snd ` set (tiles r). painted (tilemem r u))"
    by (simp add: render_tile_get_painted_None)
  show ?thesis
  proof (cases "dirty r = []")
    case True
    show ?thesis using assms None True ne
      by (auto simp: tile_request_def Let_def render_tile_get_dirty_def)
  next
    case False
    have "res = Some (last (dirty r)) \<and>
       w' = touch rp (last (dirty r)) (tile_reuse E rp (last (dirty r)) a
              (set_render rp (r\<lparr>dirty := remove1 (last (dirty r)) (dirty r)\<rparr>) w))"
      using assms None False by (auto simp: tile_request_def Let_def render_tile_get_dirty_def)
    then show ?thesis using ne False assms(4)
      by (simp add: tile_reuse_def Let_def touch_def tiles_tile_queue area_tile_queue set_render_def)
  qed
qed


lemmas world_defs = request_defs demo_defs demo_world_def cell_def Let_def

lemma two_painted_eval:
  "tiles (renders two_painted 0) = [((0, 0), 1), ((2, 0), 2)] \<and>
   dirty (renders two_painted 0) = [] \<and>
   ntiles (renders two_painted 0) = 2 \<and> max_tiles (renders two_painted 0) = 2 \<and>
   painted (tilemem (renders two_painted 0) 1) \<and> painted (tilemem (renders two_painted 0) 2) \<and>
   Tile.ticks (tilemem (renders two_painted 0) 1) = 0 \<and>
   Tile.ticks (tilemem (renders two_painted 0) 2) = 1 \<and>
   area (tilemem (renders two_painted 0) 1) = cell 0 0 \<and>
   area (tilemem (renders two_painted 0) 2) = cell 2 0"
  by (simp add: two_painted_def world_defs)

lemma two_dirty_eval2:
  "max_tiles (renders two_dirty 0) = 2 \<and>
   \<not> painted (tilemem (renders two_dirty 0) 1) \<and> \<not> painted (tilemem (renders two_dirty 0) 2) \<and>
   area (tilemem (renders two_dirty 0) 1) = cell 0 0 \<and>
   area (tilemem (renders two_dirty 0) 2) = cell 2 0"
  by (simp add: two_dirty_def world_defs)

lemma all_taken_eval:
  "tiles (renders all_taken 0) = [((0, 0), 1), ((2, 0), 2)] \<and>
   dirty (renders all_taken 0) = [] \<and>
   ntiles (renders all_taken 0) = 2 \<and> max_tiles (renders all_taken 0) = 2 \<and>
   \<not> painted (tilemem (renders all_taken 0) 1) \<and> \<not> painted (tilemem (renders all_taken 0) 2)"
  using two_dirty_eval two_dirty_eval2 by (simp add: all_taken_def render_allocate_def Let_def)

text \<open>
  C3, witness: with two tiles allowed and the cells (0, 0) and (2, 0) cached, a request
  for (4, 0) reuses tile 1, the one touched first: when both are painted, and, from
  the tail of the dirty list [2, 1], when both are dirty; when the worker holds both,
  the request returns null.
\<close>

theorem tile_request_replacement_witness:
  "render_tile_lookup (renders two_painted 0) (cell 4 0) = None \<and>
   ntiles (renders two_painted 0) = max_tiles (renders two_painted 0) \<and>
   fst (tile_request (demo_env False) 0 (cell 4 0) two_painted) = Some 1 \<and>
   tiles (renders (snd (tile_request (demo_env False) 0 (cell 4 0) two_painted)) 0)
     = [((2, 0), 2), ((4, 0), 1)] \<and>
   fst (tile_request (demo_env True) 0 (cell 4 0) two_dirty) = Some 1 \<and>
   tiles (renders (snd (tile_request (demo_env True) 0 (cell 4 0) two_dirty)) 0)
     = [((2, 0), 2), ((4, 0), 1)] \<and>
   tile_request (demo_env True) 0 (cell 4 0) all_taken = (None, all_taken)"
proof -
  note e = two_painted_eval two_dirty_eval two_dirty_eval2 all_taken_eval
  have l: "render_tile_lookup (renders two_painted 0) (cell 4 0) = None"
    "render_tile_lookup (renders two_dirty 0) (cell 4 0) = None"
    "render_tile_lookup (renders all_taken 0) (cell 4 0) = None"
    using e by (simp_all add: render_tile_lookup_def key_of_def cell_def)
  have m: "max_tiles (renders two_painted 0) \<noteq> - 1" "max_tiles (renders two_dirty 0) \<noteq> - 1"
    "max_tiles (renders all_taken 0) \<noteq> - 1"
    using e by simp_all
  have n: "ntiles (renders two_painted 0) = max_tiles (renders two_painted 0)"
    "ntiles (renders two_dirty 0) = max_tiles (renders two_dirty 0)"
    "ntiles (renders all_taken 0) = max_tiles (renders all_taken 0)"
    using e by simp_all
  note a = tile_request_replacement [OF l(1) n(1) m(1) refl prod.collapse [symmetric],
      of "demo_env False"]
  note b = tile_request_replacement [OF l(2) n(2) m(2) refl prod.collapse [symmetric],
      of "demo_env True"]
  note c = tile_request_replacement [OF l(3) n(3) m(3) refl prod.collapse [symmetric],
      of "demo_env True"]
  have a': "fst (tile_request (demo_env False) 0 (cell 4 0) two_painted) = Some 1 \<and>
     tiles (renders (snd (tile_request (demo_env False) 0 (cell 4 0) two_painted)) 0)
       = [((2, 0), 2), ((4, 0), 1)]"
    using a e by (auto simp: key_of_def cell_def)
  have b': "fst (tile_request (demo_env True) 0 (cell 4 0) two_dirty) = Some 1 \<and>
     tiles (renders (snd (tile_request (demo_env True) 0 (cell 4 0) two_dirty)) 0)
       = [((2, 0), 2), ((4, 0), 1)]"
    using b e by (auto simp: key_of_def cell_def)
  have c': "tile_request (demo_env True) 0 (cell 4 0) all_taken = (None, all_taken)"
    using c e by (simp add: prod_eq_iff)
  from a' b' c' l(1) n(1) show ?thesis by simp
qed

subsection \<open>Requests for a cached tile, and copying\<close>





lemma touch_frame [simp]:
  "render_dirty_all (touch rp t w) = render_dirty_all w"
  "render_dirty_sem (touch rp t w) = render_dirty_sem w"
  "render_reschedule (touch rp t w) = render_reschedule w"
  "notified (touch rp t w) = notified w"
  by (simp_all add: touch_def)




lemma two_painted_eval2:
  "\<not> invalid (region (tilemem (renders two_painted 0) 1)) \<and> ticks (renders two_painted 0) = 2 \<and>
   tile_width (renders two_painted 0) = 2 \<and> tile_height (renders two_painted 0) = 2"
  by (simp add: two_painted_def world_defs)

lemma two_dirty_eval3:
  "notify (renders two_dirty 0) \<and>
   tile_width (renders two_dirty 0) = 2 \<and> tile_height (renders two_dirty 0) = 2"
  by (simp add: two_dirty_def world_defs)

lemma set_render_set_render [simp]: "set_render rp r (set_render rp r' w) = set_render rp r w"
  by (simp add: set_render_def)

lemmas rect_defs = im_rect_intersectrect_def IM_RECT_RIGHT_def IM_RECT_BOTTOM_def
  im_rect_isempty_def im_rect_includespoint_def




subsection \<open>The capacity of the cache\<close>


lemma same_store_refl [simp]: "same_store r r"
  by (simp add: same_store_def)

lemma same_store_trans: "same_store r r' \<Longrightarrow> same_store r' r'' \<Longrightarrow> same_store r r''"
  by (simp add: same_store_def)

lemma same_store_capacity: "same_store r r' \<Longrightarrow> capacity_ok r \<Longrightarrow> capacity_ok r'"
  by (simp add: same_store_def capacity_ok_def)

lemma same_store_tile_touch: "same_store r (tile_touch t r)"
  by (simp add: same_store_def tile_touch_def Let_def)

lemma same_store_touch: "same_store (renders w rp) (renders (touch rp t w) rp)"
  by (simp add: touch_def same_store_tile_touch)

lemma same_store_tile_queue: "same_store (renders w rp) (renders (tile_queue E rp t a w) rp)"
  by (simp add: same_store_def tile_queue_def Let_def)

lemma same_store_tile_reuse: "same_store (renders w rp) (renders (tile_reuse E rp t a w) rp)"
  using same_store_tile_queue [of "set_render rp r1 w" rp E t a for r1]
  by (simp add: tile_reuse_def Let_def same_store_def)

lemma same_store_get_dirty: "same_store r (snd (render_tile_get_dirty r))"
  by (simp add: render_tile_get_dirty_def same_store_def Let_def)

lemma tile_new_capacity:
  assumes "capacity_ok r" and "ntiles r < max_tiles r \<or> max_tiles r = - 1"
  shows "capacity_ok (snd (tile_new E r)) \<and> max_tiles (snd (tile_new E r)) = max_tiles r"
  using assms by (auto simp: tile_new_def capacity_ok_def Let_def split: option.splits)

lemma tile_request_capacity:
  assumes "capacity_ok (renders w rp)"
  shows "capacity_ok (renders (snd (tile_request E rp a w)) rp) \<and>
         max_tiles (renders (snd (tile_request E rp a w)) rp) = max_tiles (renders w rp)"
proof -
  let ?r = "renders w rp"
  have k: "same_store ?r r' \<Longrightarrow> capacity_ok r' \<and> max_tiles r' = max_tiles ?r" for r'
    using assms by (simp add: same_store_capacity) (simp add: same_store_def)
  have q: "same_store (renders w1 rp) (renders (touch rp t (tile_queue E rp t a w1)) rp)" for w1 t
    by (rule same_store_trans [OF same_store_tile_queue same_store_touch])
  have u: "same_store (renders w1 rp) (renders (touch rp t (tile_reuse E rp t a w1)) rp)" for w1 t
    by (rule same_store_trans [OF same_store_tile_reuse same_store_touch])
  show ?thesis
  proof (cases "render_tile_lookup ?r a")
    case (Some t)
    then show ?thesis using k [OF q [of w t]] k [OF same_store_touch [of w rp t]]
      by (simp add: tile_request_def Let_def)
  next
    case None
    show ?thesis
    proof (cases "ntiles ?r < max_tiles ?r \<or> max_tiles ?r = - 1")
      case True
      note n = tile_new_capacity [OF assms True, of E]
      obtain res r' where tn: "tile_new E ?r = (res, r')" by (cases "tile_new E ?r")
      with n have c: "capacity_ok r'" and m: "max_tiles r' = max_tiles ?r" by simp_all
      show ?thesis
      proof (cases res)
        case None
        then show ?thesis using \<open>render_tile_lookup ?r a = None\<close> True tn c m
          by (simp add: tile_request_def Let_def)
      next
        case (Some t)
        have "same_store r' (renders (touch rp t (tile_queue E rp t a (set_render rp r' w))) rp)"
          using q [of "set_render rp r' w" t] by simp
        then have "capacity_ok (renders (touch rp t (tile_queue E rp t a (set_render rp r' w))) rp) \<and>
          max_tiles (renders (touch rp t (tile_queue E rp t a (set_render rp r' w))) rp) = max_tiles ?r"
          using c m by (simp add: same_store_capacity) (simp add: same_store_def)
        then show ?thesis using \<open>render_tile_lookup ?r a = None\<close> True tn Some
          by (simp add: tile_request_def Let_def)
      qed
    next
      case False
      show ?thesis
      proof (cases "render_tile_get_painted ?r")
        case (Some t)
        then show ?thesis using \<open>render_tile_lookup ?r a = None\<close> False k [OF u [of w t]]
          by (simp add: tile_request_def Let_def)
      next
        case None
        obtain res r' where gd: "render_tile_get_dirty ?r = (res, r')"
          by (cases "render_tile_get_dirty ?r")
        have s: "same_store ?r r'" using same_store_get_dirty [of ?r] gd by simp
        show ?thesis
        proof (cases res)
          case None
          then show ?thesis
            using \<open>render_tile_lookup ?r a = None\<close> False \<open>render_tile_get_painted ?r = None\<close> gd k [OF s]
            by (simp add: tile_request_def Let_def)
        next
          case (Some t)
          have "same_store ?r (renders (touch rp t (tile_reuse E rp t a (set_render rp r' w))) rp)"
            using same_store_trans [OF s] u [of "set_render rp r' w" t] by simp
          from k [OF this] show ?thesis
            using \<open>render_tile_lookup ?r a = None\<close> False \<open>render_tile_get_painted ?r = None\<close> gd Some
            by (simp add: tile_request_def Let_def)
        qed
      qed
    qed
  qed
qed


lemma cap_step_refl [simp]: "cap_step rp w w"
  by (simp add: cap_step_def)

lemma cap_step_trans: "cap_step rp w w' \<Longrightarrow> cap_step rp w' w'' \<Longrightarrow> cap_step rp w w''"
  by (simp add: cap_step_def)

lemma cap_step_body: "cap_step rp w (result_world (region_fill_body E rp x y (w, out)))"
proof -
  let ?a = "\<lparr>left = x, top = y, width = tile_width (renders w rp),
              height = tile_height (renders w rp)\<rparr>"
  have "result_world (region_fill_body E rp x y (w, out)) = snd (tile_request E rp ?a w)"
    by (simp add: region_fill_body_def result_world_def Let_def split: prod.splits option.splits)
  then show ?thesis using tile_request_capacity [of w rp E ?a] by (simp add: cap_step_def)
qed

lemma cap_step_x: "cap_step rp (fst st) (result_world (region_fill_x E rp y x st))"
proof (induction E rp y x st rule: region_fill_x.induct)
  case (1 E rp y x st)
  show ?case
  proof (cases "x < IM_RECT_RIGHT (valid (snd st))")
    case False
    then show ?thesis
      by (simp add: region_fill_x.simps [of E rp y x st] result_world_def split: prod.splits)
  next
    case True
    note b = cap_step_body [of rp "fst st" E x y "snd st"]
    show ?thesis
    proof (cases "region_fill_body E rp x y st")
      case (Inl e)
      then show ?thesis using True b
        by (simp add: region_fill_x.simps [of E rp y x st])
    next
      case (Inr st1)
      show ?thesis
      proof (cases "tile_width (renders (fst st1) rp) \<le> 0 \<or>
          INT_MAX < x + tile_width (renders (fst st1) rp)")
        case True
        then show ?thesis using \<open>x < IM_RECT_RIGHT (valid (snd st))\<close> Inr b
          by (auto simp: region_fill_x.simps [of E rp y x st] result_world_def split: prod.splits)
      next
        case False
        then have c: "\<not> tile_width (renders (fst st1) rp) \<le> 0"
          and o: "\<not> INT_MAX < x + tile_width (renders (fst st1) rp)"
          by simp_all
        from "1.IH" [OF \<open>x < IM_RECT_RIGHT (valid (snd st))\<close> Inr c o]
        have "cap_step rp (fst st1)
           (result_world (region_fill_x E rp y (x + tile_width (renders (fst st1) rp)) st1))" .
        moreover have "cap_step rp (fst st) (fst st1)"
          using b Inr by (simp add: result_world_def split: prod.splits)
        ultimately show ?thesis using \<open>x < IM_RECT_RIGHT (valid (snd st))\<close> Inr c o
          by (simp add: region_fill_x.simps [of E rp y x st] cap_step_trans)
      qed
    qed
  qed
qed

lemma result_world_Inr: "res = Inr st \<Longrightarrow> result_world res = fst st"
  by (simp add: result_world_def split: prod.splits)

lemma cap_step_y: "cap_step rp (fst st) (result_world (region_fill_y E rp xs y st))"
proof (induction E rp xs y st rule: region_fill_y.induct)
  case (1 E rp xs y st)
  show ?case
  proof (cases "y < IM_RECT_BOTTOM (valid (snd st))")
    case False
    then show ?thesis
      by (simp add: region_fill_y.simps [of E rp xs y st] result_world_def split: prod.splits)
  next
    case True
    note b = cap_step_x [of rp st E y xs]
    show ?thesis
    proof (cases "region_fill_x E rp y xs st")
      case (Inl e)
      then show ?thesis using True b
        by (simp add: region_fill_y.simps [of E rp xs y st])
    next
      case (Inr st1)
      show ?thesis
      proof (cases "tile_height (renders (fst st1) rp) \<le> 0 \<or>
          INT_MAX < y + tile_height (renders (fst st1) rp)")
        case True
        then show ?thesis using \<open>y < IM_RECT_BOTTOM (valid (snd st))\<close> Inr b
          by (auto simp: region_fill_y.simps [of E rp xs y st] result_world_def split: prod.splits)
      next
        case False
        then have c: "\<not> tile_height (renders (fst st1) rp) \<le> 0"
          and o: "\<not> INT_MAX < y + tile_height (renders (fst st1) rp)"
          by simp_all
        from "1.IH" [OF \<open>y < IM_RECT_BOTTOM (valid (snd st))\<close> Inr c o]
        have "cap_step rp (fst st1)
           (result_world (region_fill_y E rp xs (y + tile_height (renders (fst st1) rp)) st1))" .
        moreover have "cap_step rp (fst st) (fst st1)"
          using b Inr by (simp add: result_world_Inr)
        ultimately show ?thesis using \<open>y < IM_RECT_BOTTOM (valid (snd st))\<close> Inr c o
          by (simp add: region_fill_y.simps [of E rp xs y st] cap_step_trans)
      qed
    qed
  qed
qed

lemma cap_step_region_fill:
  "cap_step rp w (case region_fill E rp out w of Inl (e, w') \<Rightarrow> w' | Inr (rc, w', out') \<Rightarrow> w')"
proof (cases "tile_width (renders w rp) = 0 \<or> tile_height (renders w rp) = 0")
  case True
  then show ?thesis by (auto simp: region_fill_def Let_def)
next
  case False
  let ?xs = "(left (valid out) sdiv tile_width (renders w rp)) * tile_width (renders w rp)"
  let ?ys = "(Rect.top (valid out) sdiv tile_height (renders w rp)) * tile_height (renders w rp)"
  have "(case region_fill E rp out w of Inl (e, w') \<Rightarrow> w' | Inr (rc, w', out') \<Rightarrow> w')
      = result_world (region_fill_y E rp ?xs ?ys (w, out))"
    using False by (auto simp: region_fill_def Let_def result_world_def split: sum.splits)
  then show ?thesis using cap_step_y [of rp "(w, out)" E ?xs ?ys] by simp
qed

lemma cap_step_run: "cap_step rp w (run E rp ops w)"
proof (induction ops arbitrary: w)
  case Nil
  then show ?case by simp
next
  case (Cons op ops)
  show ?case
  proof (cases op)
    case (Request a)
    have "cap_step rp w (snd (tile_request E rp a w))"
      using tile_request_capacity [of w rp E a] by (simp add: cap_step_def)
    from cap_step_trans [OF this Cons.IH] show ?thesis using Request by simp
  next
    case (Fill out)
    note f = cap_step_region_fill [of rp w E out]
    show ?thesis
    proof (cases "region_fill E rp out w")
      case (Inl ew)
      then show ?thesis using f Fill by (simp split: prod.splits)
    next
      case (Inr res)
      obtain rc w' out' where r: "res = (rc, w', out')" by (cases res)
      with f Inr have "cap_step rp w w'" by simp
      from cap_step_trans [OF this Cons.IH] show ?thesis using Fill Inr r by simp
    qed
  qed
qed

text \<open>
  C1: from a sink that satisfies the capacity invariant, as every new sink does,
  every sequence of tile requests and region fills leaves a sink in which the length
  of \<open>all\<close> is \<open>ntiles\<close> and, when \<open>max_tiles\<close> is not negative, \<open>ntiles\<close> is at
  most \<open>max_tiles\<close>; with \<open>max_tiles = 0\<close> the sink never holds a tile.
  \<open>tile_new\<close>, which only \<open>tile_request\<close> calls, and only with fewer tiles than the
  maximum or without a maximum, keeps the length of \<open>all\<close> equal to \<open>ntiles\<close>, and
  under that guard keeps the invariant.
\<close>

theorem capacity_invariant:
  assumes "capacity_ok (renders w rp)"
  shows "capacity_ok (renders (run E rp ops w) rp) \<and>
     int (length (all (renders (run E rp ops w) rp))) = ntiles (renders (run E rp ops w) rp) \<and>
     (0 \<le> max_tiles (renders w rp) \<longrightarrow>
        ntiles (renders (run E rp ops w) rp) \<le> max_tiles (renders w rp)) \<and>
     (max_tiles (renders w rp) = 0 \<longrightarrow> all (renders (run E rp ops w) rp) = []) \<and>
     (\<forall>r. int (length (all r)) = ntiles r \<longrightarrow>
        int (length (all (snd (tile_new E r)))) = ntiles (snd (tile_new E r))) \<and>
     (\<forall>r. capacity_ok r \<and> (ntiles r < max_tiles r \<or> max_tiles r = - 1) \<longrightarrow>
        capacity_ok (snd (tile_new E r))) \<and>
     capacity_ok (render_new tw th mt pri nfy has_mask mem)"
proof -
  from cap_step_run [of rp w E ops] assms
  have c: "capacity_ok (renders (run E rp ops w) rp)"
    and m: "max_tiles (renders (run E rp ops w) rp) = max_tiles (renders w rp)"
    by (simp_all add: cap_step_def)
  have n: "int (length (all r)) = ntiles r \<longrightarrow>
        int (length (all (snd (tile_new E r)))) = ntiles (snd (tile_new E r))" for r
    by (auto simp: tile_new_def Let_def split: option.splits)
  have i: "capacity_ok (render_new tw th mt pri nfy has_mask mem)"
    by (simp add: capacity_ok_def render_new_def)
  have g: "capacity_ok r \<and> (ntiles r < max_tiles r \<or> max_tiles r = - 1) \<longrightarrow>
        capacity_ok (snd (tile_new E r))" for r
    using tile_new_capacity [of r E] by blast
  have z: "max_tiles (renders w rp) = 0 \<longrightarrow> all (renders (run E rp ops w) rp) = []"
  proof
    assume "max_tiles (renders w rp) = 0"
    with c m have "int (length (all (renders (run E rp ops w) rp))) \<le> 0"
      by (simp add: capacity_ok_def)
    then show "all (renders (run E rp ops w) rp) = []" by simp
  qed
  have b: "0 \<le> max_tiles (renders w rp) \<longrightarrow>
        ntiles (renders (run E rp ops w) rp) \<le> max_tiles (renders w rp)"
    using c m by (simp add: capacity_ok_def)
  have l: "int (length (all (renders (run E rp ops w) rp))) = ntiles (renders (run E rp ops w) rp)"
    using c by (simp add: capacity_ok_def)
  from c l b z n g i show ?thesis by blast
qed


lemmas fill_defs = region_fill_def region_fill_y.simps region_fill_x.simps region_fill_body_def
  tile_copy_def rect_defs im_region_paint_def out_region_def signed_divide_int_def INT_MAX_def

lemma run_eval:
  "ntiles (renders (run (demo_env True) 0 three_requests (demo_world (demo_render 2 True))) 0) = 2 \<and>
   all (renders (run (demo_env True) 0 three_requests (demo_world (demo_render 2 True))) 0) = [2, 1] \<and>
   tiles (renders (run (demo_env True) 0 three_requests (demo_world (demo_render 2 True))) 0)
     = [((2, 0), 2), ((4, 0), 1)]"
  by (simp add: three_requests_def world_defs fill_defs)

lemma run_eval0:
  "ntiles (renders (run (demo_env True) 0 three_requests (demo_world (demo_render 0 True))) 0) = 0 \<and>
   tiles (renders (run (demo_env True) 0 three_requests (demo_world (demo_render 0 True))) 0) = []"
  by (simp add: three_requests_def world_defs fill_defs)

text \<open>
  C1, witness: with two tiles allowed, three demands for three different cells leave
  two tiles; with none allowed they leave none.
\<close>

theorem capacity_invariant_witness:
  "capacity_ok (renders (demo_world (demo_render 2 True)) 0) \<and>
   capacity_ok (renders (run (demo_env True) 0 three_requests (demo_world (demo_render 2 True))) 0) \<and>
   ntiles (renders (run (demo_env True) 0 three_requests (demo_world (demo_render 2 True))) 0) = 2 \<and>
   all (renders (run (demo_env True) 0 three_requests (demo_world (demo_render 2 True))) 0) = [2, 1] \<and>
   max_tiles (renders (demo_world (demo_render 0 True)) 0) = 0 \<and>
   all (renders (run (demo_env True) 0 three_requests (demo_world (demo_render 0 True))) 0) = []"
proof -
  have a: "capacity_ok (renders (demo_world (demo_render 2 True)) 0)"
    and b: "capacity_ok (renders (demo_world (demo_render 0 True)) 0)"
    and m: "max_tiles (renders (demo_world (demo_render 0 True)) 0) = 0"
    by (simp_all add: capacity_ok_def demo_world_def demo_defs)
  from capacity_invariant [OF a, of "demo_env True" three_requests]
    capacity_invariant [OF b, of "demo_env True" three_requests] a m run_eval
  show ?thesis by simp
qed

subsection \<open>The mask\<close>


lemma mask_value_iff:
  "mask_value r a =
     (if \<exists>t. render_tile_lookup r a = Some t \<and> painted (tilemem r t) \<and>
              \<not> invalid (region (tilemem r t))
      then 255 else 0)"
  by (simp add: mask_value_def split: option.splits)

lemma mask_fill_body_eq:
  "mask_fill_body rp x y (w, out) =
     (w, im_region_paint out
           \<lparr>left = x, top = y, width = tile_width (renders w rp),
              height = tile_height (renders w rp)\<rparr>
           (mask_value (renders w rp)
              \<lparr>left = x, top = y, width = tile_width (renders w rp),
                 height = tile_height (renders w rp)\<rparr>))"
  by (simp add: mask_fill_body_def mask_value_def Let_def split: option.splits)

lemma im_region_paint_pels:
  "pels (im_region_paint out a v) (px, py) =
     (if im_rect_includespoint a px py \<and> im_rect_includespoint (valid out) px py then v
      else pels out (px, py))"
  by (auto simp: im_region_paint_def Let_def rect_defs)

lemma im_region_paint_valid [simp]: "valid (im_region_paint out a v) = valid out"
  by (simp add: im_region_paint_def Let_def)

lemma fst_mask_fill_body [simp]: "fst (mask_fill_body rp x y st) = fst st"
  by (cases st) (simp add: mask_fill_body_eq)

lemma div_shift_one:
  assumes "0 < (d::int)"
  shows "(a - x) div d = (a - (x + d)) div d + 1"
proof -
  from assms have n: "d \<noteq> 0" by simp
  have e: "a - x = (a - (x + d)) + d" by simp
  show ?thesis by (subst e) (rule div_add_self2 [OF n])
qed

lemma mask_fill_x_pels:
  assumes "0 < tile_width (renders (fst st) rp)"
    and "IM_RECT_RIGHT (valid (snd st)) + tile_width (renders (fst st) rp) \<le> INT_MAX + 1"
  shows "\<exists>out'. mask_fill_x rp y x st = Inr (fst st, out') \<and> valid out' = valid (snd st) \<and>
     (\<forall>px py. pels out' (px, py) =
        (if im_rect_includespoint (valid (snd st)) px py \<and> x \<le> px \<and>
            y \<le> py \<and> py < y + tile_height (renders (fst st) rp)
         then mask_value (renders (fst st) rp)
                \<lparr>left = x + (px - x) div tile_width (renders (fst st) rp)
                            * tile_width (renders (fst st) rp),
                   top = y, width = tile_width (renders (fst st) rp),
                   height = tile_height (renders (fst st) rp)\<rparr>
         else pels (snd st) (px, py)))"
  using assms
proof (induction rp y x st rule: mask_fill_x.induct)
  case (1 rp y x st)
  obtain w out where st: "st = (w, out)" by (cases st)
  let ?tw = "tile_width (renders w rp)"
  let ?th = "tile_height (renders w rp)"
  let ?cell = "\<lambda>cx. \<lparr>left = cx, top = y, width = ?tw, height = ?th\<rparr>"
  have tw: "0 < ?tw" and ov: "IM_RECT_RIGHT (valid out) + ?tw \<le> INT_MAX + 1"
    using "1.prems" st by simp_all
  show ?case
  proof (cases "x < IM_RECT_RIGHT (valid out)")
    case False
    then have "mask_fill_x rp y x st = Inr (w, out)"
      unfolding st by (simp add: mask_fill_x.simps [of rp y x "(w, out)"])
    moreover have "\<not> (im_rect_includespoint (valid out) px py \<and> x \<le> px)" for px py
      using False by (auto simp: rect_defs)
    ultimately show ?thesis using st by auto
  next
    case True
    let ?out1 = "im_region_paint out (?cell x) (mask_value (renders w rp) (?cell x))"
    have b: "mask_fill_body rp x y st = (w, ?out1)" unfolding st by (rule mask_fill_body_eq)
    have step: "mask_fill_x rp y x st = mask_fill_x rp y (x + ?tw) (w, ?out1)"
      using True tw ov b unfolding st by (simp add: mask_fill_x.simps [of rp y x "(w, out)"])
    have t: "x < IM_RECT_RIGHT (valid (snd st))" using True st by simp
    have c: "\<not> tile_width (renders (fst (mask_fill_body rp x y st)) rp) \<le> 0"
      using tw st by simp
    have o: "\<not> INT_MAX < x + tile_width (renders (fst (mask_fill_body rp x y st)) rp)"
      using True ov st by simp
    have d: "0 < tile_width (renders (fst (mask_fill_body rp x y st)) rp)"
      using tw st by simp
    have e: "IM_RECT_RIGHT (valid (snd (mask_fill_body rp x y st)))
        + tile_width (renders (fst (mask_fill_body rp x y st)) rp) \<le> INT_MAX + 1"
      using ov st by (simp add: mask_fill_body_valid)
    from "1.IH" [OF t refl c o d e, unfolded b fst_conv snd_conv im_region_paint_valid]
    obtain out' where r: "mask_fill_x rp y (x + ?tw) (w, ?out1) = Inr (w, out')"
      and v: "valid out' = valid out"
      and p: "\<And>px py. pels out' (px, py) =
        (if im_rect_includespoint (valid out) px py \<and> x + ?tw \<le> px \<and> y \<le> py \<and> py < y + ?th
         then mask_value (renders w rp) (?cell (x + ?tw + (px - (x + ?tw)) div ?tw * ?tw))
         else pels ?out1 (px, py))"
      by blast
    have q: "pels out' (px, py) =
        (if im_rect_includespoint (valid out) px py \<and> x \<le> px \<and> y \<le> py \<and> py < y + ?th
         then mask_value (renders w rp) (?cell (x + (px - x) div ?tw * ?tw))
         else pels out (px, py))" for px py
    proof (cases "x + ?tw \<le> px")
      case True
      have eq: "x + (px - x) div ?tw * ?tw = x + ?tw + (px - (x + ?tw)) div ?tw * ?tw"
        using div_shift_one [OF tw, of px x] by (simp add: algebra_simps)
      have o1: "pels ?out1 (px, py) = pels out (px, py)"
        using True tw by (simp add: im_region_paint_pels rect_defs)
      have xp: "x \<le> px" using True tw by simp
      show ?thesis unfolding eq using p [of px py] True o1 xp by simp
    next
      case False
      show ?thesis
      proof (cases "x \<le> px")
        case True
        then have "(px - x) div ?tw = 0" using False by (simp add: div_pos_pos_trivial)
        then show ?thesis using True False p [of px py]
          by (auto simp: im_region_paint_pels rect_defs)
      next
        case False
        then show ?thesis using \<open>\<not> x + ?tw \<le> px\<close> p [of px py] tw
          by (auto simp: im_region_paint_pels rect_defs)
      qed
    qed
    from r v q step show ?thesis using st by auto
  qed
qed


lemma mask_fill_y_pels:
  assumes "0 < tile_width (renders (fst st) rp)" and "0 < tile_height (renders (fst st) rp)"
    and "xs \<le> left (valid (snd st))"
    and "IM_RECT_RIGHT (valid (snd st)) + tile_width (renders (fst st) rp) \<le> INT_MAX + 1"
    and "IM_RECT_BOTTOM (valid (snd st)) + tile_height (renders (fst st) rp) \<le> INT_MAX + 1"
  shows "\<exists>out'. mask_fill_y rp xs y st = Inr (fst st, out') \<and> valid out' = valid (snd st) \<and>
     (\<forall>px py. pels out' (px, py) =
        (if im_rect_includespoint (valid (snd st)) px py \<and> y \<le> py
         then mask_value (renders (fst st) rp)
                \<lparr>left = xs + (px - xs) div tile_width (renders (fst st) rp)
                             * tile_width (renders (fst st) rp),
                   top = y + (py - y) div tile_height (renders (fst st) rp)
                             * tile_height (renders (fst st) rp),
                   width = tile_width (renders (fst st) rp),
                   height = tile_height (renders (fst st) rp)\<rparr>
         else pels (snd st) (px, py)))"
  using assms
proof (induction rp xs y st rule: mask_fill_y.induct)
  case (1 rp xs y st)
  obtain w out where st: "st = (w, out)" by (cases st)
  let ?tw = "tile_width (renders w rp)"
  let ?th = "tile_height (renders w rp)"
  let ?cell = "\<lambda>cx cy. \<lparr>left = cx, top = cy, width = ?tw, height = ?th\<rparr>"
  let ?cx = "\<lambda>px. xs + (px - xs) div ?tw * ?tw"
  have tw: "0 < ?tw" and th: "0 < ?th" and xs: "xs \<le> left (valid out)"
    and ovx: "IM_RECT_RIGHT (valid out) + ?tw \<le> INT_MAX + 1"
    and ovy: "IM_RECT_BOTTOM (valid out) + ?th \<le> INT_MAX + 1"
    using "1.prems" st by simp_all
  show ?case
  proof (cases "y < IM_RECT_BOTTOM (valid out)")
    case False
    then have "mask_fill_y rp xs y st = Inr (w, out)"
      unfolding st by (simp add: mask_fill_y.simps [of rp xs y "(w, out)"])
    moreover have "\<not> (im_rect_includespoint (valid out) px py \<and> y \<le> py)" for px py
      using False by (auto simp: rect_defs)
    ultimately show ?thesis using st by auto
  next
    case True
    from mask_fill_x_pels [of "(w, out)" rp y xs] tw ovx
    obtain out1 where r1: "mask_fill_x rp y xs (w, out) = Inr (w, out1)"
      and v1: "valid out1 = valid out"
      and p1: "\<And>px py. pels out1 (px, py) =
        (if im_rect_includespoint (valid out) px py \<and> xs \<le> px \<and> y \<le> py \<and> py < y + ?th
         then mask_value (renders w rp) (?cell (?cx px) y)
         else pels out (px, py))"
      by auto
    have step: "mask_fill_y rp xs y st = mask_fill_y rp xs (y + ?th) (w, out1)"
      using True th ovy r1 unfolding st by (simp add: mask_fill_y.simps [of rp xs y "(w, out)"])
    have t: "y < IM_RECT_BOTTOM (valid (snd st))" using True st by simp
    have r1': "mask_fill_x rp y xs st = Inr (w, out1)" using r1 st by simp
    have c: "\<not> tile_height (renders (fst (w, out1)) rp) \<le> 0" using th by simp
    have o: "\<not> INT_MAX < y + tile_height (renders (fst (w, out1)) rp)"
      using True ovy by simp
    have d: "0 < tile_width (renders (fst (w, out1)) rp)" "0 < tile_height (renders (fst (w, out1)) rp)"
      "xs \<le> left (valid (snd (w, out1)))"
      "IM_RECT_RIGHT (valid (snd (w, out1))) + tile_width (renders (fst (w, out1)) rp) \<le> INT_MAX + 1"
      "IM_RECT_BOTTOM (valid (snd (w, out1))) + tile_height (renders (fst (w, out1)) rp) \<le> INT_MAX + 1"
      using tw th xs v1 ovx ovy by simp_all
    from "1.IH" [OF t r1' c o d, unfolded fst_conv snd_conv v1]
    obtain out' where r: "mask_fill_y rp xs (y + ?th) (w, out1) = Inr (w, out')"
      and v: "valid out' = valid out"
      and p: "\<And>px py. pels out' (px, py) =
        (if im_rect_includespoint (valid out) px py \<and> y + ?th \<le> py
         then mask_value (renders w rp) (?cell (?cx px) (y + ?th + (py - (y + ?th)) div ?th * ?th))
         else pels out1 (px, py))"
      by blast
    have q: "pels out' (px, py) =
        (if im_rect_includespoint (valid out) px py \<and> y \<le> py
         then mask_value (renders w rp) (?cell (?cx px) (y + (py - y) div ?th * ?th))
         else pels out (px, py))" for px py
    proof (cases "y + ?th \<le> py")
      case True
      have eq: "y + (py - y) div ?th * ?th = y + ?th + (py - (y + ?th)) div ?th * ?th"
        using div_shift_one [OF th, of py y] by (simp add: algebra_simps)
      have o1: "pels out1 (px, py) = pels out (px, py)"
        using True th p1 [of px py] by simp
      have yp: "y \<le> py" using True th by simp
      show ?thesis unfolding eq using p [of px py] True o1 yp by simp
    next
      case False
      show ?thesis
      proof (cases "y \<le> py")
        case True
        then have z: "(py - y) div ?th = 0" using False by (simp add: div_pos_pos_trivial)
        have "im_rect_includespoint (valid out) px py \<Longrightarrow> xs \<le> px"
          using xs by (simp add: rect_defs)
        then show ?thesis using True False p [of px py] p1 [of px py] z by auto
      next
        case False
        then show ?thesis using \<open>\<not> y + ?th \<le> py\<close> p [of px py] p1 [of px py] by auto
      qed
    qed
    from r v q step show ?thesis using st by auto
  qed
qed


lemma grid_origin:
  assumes "0 < (d::int)"
  shows "k * d + (a - k * d) div d * d = a div d * d"
proof -
  from assms have n: "d \<noteq> 0" by simp
  have "(a - k * d) div d = (a + (- k) * d) div d" by simp
  also have "\<dots> = - k + a div d" by (rule div_mult_self1 [OF n])
  finally have e: "(a - k * d) div d = - k + a div d" .
  show ?thesis unfolding e by (simp add: algebra_simps)
qed

lemma grid_floor: "0 < (d::int) \<Longrightarrow> a div d * d \<le> a"
  using pos_mod_sign [of d a] by (simp add: minus_mod_eq_div_mult [symmetric])

lemma sdiv_nonneg: "0 \<le> (a::int) \<Longrightarrow> 0 < d \<Longrightarrow> a sdiv d = a div d"
  by (simp add: signed_divide_int_def sgn_if)

lemma mask_fill_total:
  assumes "r = renders w rp" and "0 < tile_width r" and "0 < tile_height r"
    and "0 \<le> left (valid out)" and "0 \<le> Rect.top (valid out)"
    and "IM_RECT_RIGHT (valid out) + tile_width r \<le> INT_MAX + 1"
    and "IM_RECT_BOTTOM (valid out) + tile_height r \<le> INT_MAX + 1"
  shows "\<exists>out'. mask_fill rp out w = Inr (0, w, out') \<and> valid out' = valid out \<and>
     (\<forall>px py. pels out' (px, py) =
        (if im_rect_includespoint (valid out) px py then
           if \<exists>t. render_tile_lookup r
                     \<lparr>left = (px sdiv tile_width r) * tile_width r,
                        top = (py sdiv tile_height r) * tile_height r,
                        width = tile_width r, height = tile_height r\<rparr> = Some t \<and>
                   painted (tilemem r t) \<and> \<not> invalid (region (tilemem r t))
           then 255 else 0
         else pels out (px, py)))"
proof -
  let ?tw = "tile_width r" and ?th = "tile_height r"
  let ?xs = "(left (valid out) sdiv ?tw) * ?tw" and ?ys = "(Rect.top (valid out) sdiv ?th) * ?th"
  have xs: "?xs = (left (valid out) div ?tw) * ?tw" and ys: "?ys = (Rect.top (valid out) div ?th) * ?th"
    using assms by (simp_all add: sdiv_nonneg)
  have xl: "?xs \<le> left (valid out)" unfolding xs using assms(2) by (rule grid_floor)
  have yl: "?ys \<le> Rect.top (valid out)" unfolding ys using assms(3) by (rule grid_floor)
  from mask_fill_y_pels [of "(w, out)" rp ?xs ?ys] assms xl
  obtain out' where m: "mask_fill_y rp ?xs ?ys (w, out) = Inr (w, out')"
    and v: "valid out' = valid out"
    and p: "\<And>px py. pels out' (px, py) =
        (if im_rect_includespoint (valid out) px py \<and> ?ys \<le> py
         then mask_value r
                \<lparr>left = ?xs + (px - ?xs) div ?tw * ?tw, top = ?ys + (py - ?ys) div ?th * ?th,
                   width = ?tw, height = ?th\<rparr>
         else pels out (px, py))"
    by auto
  have f: "mask_fill rp out w = Inr (0, w, out')"
    using m assms by (simp add: mask_fill_def Let_def)
  have q: "pels out' (px, py) =
        (if im_rect_includespoint (valid out) px py then
           mask_value r \<lparr>left = (px sdiv ?tw) * ?tw, top = (py sdiv ?th) * ?th,
                          width = ?tw, height = ?th\<rparr>
         else pels out (px, py))" for px py
  proof (cases "im_rect_includespoint (valid out) px py")
    case False
    then show ?thesis using p [of px py] by simp
  next
    case True
    then have px: "0 \<le> px" and py: "0 \<le> py" and yy: "?ys \<le> py"
      using assms(4,5) yl by (auto simp: rect_defs)
    have gx: "?xs + (px - ?xs) div ?tw * ?tw = (px sdiv ?tw) * ?tw"
      unfolding xs using grid_origin [OF assms(2)] px assms(2) by (simp add: sdiv_nonneg)
    have gy: "?ys + (py - ?ys) div ?th * ?th = (py sdiv ?th) * ?th"
      unfolding ys using grid_origin [OF assms(3)] py assms(3) by (simp add: sdiv_nonneg)
    show ?thesis using p [of px py] True yy unfolding gx gy by simp
  qed
  from f v q show ?thesis unfolding mask_value_iff by blast
qed

lemma mask_fill_x_world: "result_world (mask_fill_x rp y x st) = fst st"
proof (induction rp y x st rule: mask_fill_x.induct)
  case (1 rp y x st)
  show ?case
  proof (cases "x < IM_RECT_RIGHT (valid (snd st))")
    case False
    then show ?thesis
      by (simp add: mask_fill_x.simps [of rp y x st] result_world_def split: prod.splits)
  next
    case True
    show ?thesis
    proof (cases "tile_width (renders (fst st) rp) \<le> 0 \<or>
        INT_MAX < x + tile_width (renders (fst st) rp)")
      case True
      then show ?thesis using \<open>x < IM_RECT_RIGHT (valid (snd st))\<close>
        by (auto simp: mask_fill_x.simps [of rp y x st] result_world_def Let_def)
    next
      case False
      then have c: "\<not> tile_width (renders (fst (mask_fill_body rp x y st)) rp) \<le> 0"
        and o: "\<not> INT_MAX < x + tile_width (renders (fst (mask_fill_body rp x y st)) rp)"
        by simp_all
      from "1.IH" [OF True refl c o] show ?thesis using True False
        by (simp add: mask_fill_x.simps [of rp y x st] Let_def)
    qed
  qed
qed

lemma mask_fill_y_world: "result_world (mask_fill_y rp xs y st) = fst st"
proof (induction rp xs y st rule: mask_fill_y.induct)
  case (1 rp xs y st)
  show ?case
  proof (cases "y < IM_RECT_BOTTOM (valid (snd st))")
    case False
    then show ?thesis
      by (simp add: mask_fill_y.simps [of rp xs y st] result_world_def split: prod.splits)
  next
    case True
    note x = mask_fill_x_world [of rp y xs st]
    show ?thesis
    proof (cases "mask_fill_x rp y xs st")
      case (Inl e)
      then show ?thesis using True x by (simp add: mask_fill_y.simps [of rp xs y st])
    next
      case (Inr st1)
      then have f: "fst st1 = fst st" using x by (simp add: result_world_Inr)
      show ?thesis
      proof (cases "tile_height (renders (fst st1) rp) \<le> 0 \<or>
          INT_MAX < y + tile_height (renders (fst st1) rp)")
        case True
        then show ?thesis using \<open>y < IM_RECT_BOTTOM (valid (snd st))\<close> Inr f
          by (auto simp: mask_fill_y.simps [of rp xs y st] result_world_def)
      next
        case False
        then have c: "\<not> tile_height (renders (fst st1) rp) \<le> 0"
          and o: "\<not> INT_MAX < y + tile_height (renders (fst st1) rp)"
          by simp_all
        from "1.IH" [OF True Inr c o] show ?thesis using True Inr c o f
          by (simp add: mask_fill_y.simps [of rp xs y st])
      qed
    qed
  qed
qed

text \<open>
  C10: \<open>mask_fill\<close> only looks tiles up. Whatever the mask region and the sink,
  the world after the call, also when the call does not return, is the world before
  it: \<open>all\<close>, \<open>tiles\<close>, \<open>dirty\<close>, \<open>ntiles\<close>, \<open>ticks\<close>, the tiles themselves and the
  scheduler's list are unchanged.
\<close>

theorem mask_fill_frame:
  "(case mask_fill rp out w of Inl (e, w') \<Rightarrow> w' = w | Inr (rc, w', out') \<Rightarrow> w' = w) \<and>
   (\<forall>rc w' out'. mask_fill rp out w = Inr (rc, w', out') \<longrightarrow>
      all (renders w' rp) = all (renders w rp) \<and> tiles (renders w' rp) = tiles (renders w rp) \<and>
      dirty (renders w' rp) = dirty (renders w rp) \<and> ntiles (renders w' rp) = ntiles (renders w rp) \<and>
      ticks (renders w' rp) = ticks (renders w rp) \<and> tilemem (renders w' rp) = tilemem (renders w rp) \<and>
      render_dirty_all w' = render_dirty_all w)"
proof -
  let ?xs = "(left (valid out) sdiv tile_width (renders w rp)) * tile_width (renders w rp)"
  let ?ys = "(Rect.top (valid out) sdiv tile_height (renders w rp)) * tile_height (renders w rp)"
  have a: "case mask_fill rp out w of Inl (e, w') \<Rightarrow> w' = w | Inr (rc, w', out') \<Rightarrow> w' = w"
  proof (cases "tile_width (renders w rp) = 0 \<or> tile_height (renders w rp) = 0")
    case True
    then show ?thesis by (auto simp: mask_fill_def Let_def)
  next
    case False
    from mask_fill_y_world [of rp ?xs ?ys "(w, out)"] False show ?thesis
      by (auto simp: mask_fill_def Let_def result_world_def split: sum.splits prod.splits)
  qed
  then show ?thesis by (auto split: sum.splits)
qed


text \<open>
  C7: for the grid cell at \<open>(x, y)\<close> the body of the loops of \<open>mask_fill\<close> paints
  the cell's rectangle with 255 if and only if a tile is in the table at that position,
  the tile is painted and its region is not invalid, and with 0 in every other case
  (no tile, unpainted, invalid). For a sink with positive tile sizes and an output
  rectangle that starts at non-negative coordinates and whose right and bottom edges
  are at least one tile below \<open>INT_MAX + 1\<close>, so that the counters of the loops do
  not overflow, \<open>mask_fill\<close> returns 0, and every pel of the output rectangle ends
  as that value for the cell the pel lies in; the pels outside the rectangle are as
  before.
\<close>

theorem mask_fill_pels:
  assumes "r = renders w rp"
  shows "mask_fill_body rp x y (w, out) =
      (w, im_region_paint out
            \<lparr>left = x, top = y, width = tile_width r, height = tile_height r\<rparr>
            (if \<exists>t. render_tile_lookup r
                        \<lparr>left = x, top = y, width = tile_width r, height = tile_height r\<rparr>
                      = Some t \<and>
                    painted (tilemem r t) \<and> \<not> invalid (region (tilemem r t))
             then 255 else 0)) \<and>
    (0 < tile_width r \<and> 0 < tile_height r \<and>
     0 \<le> left (valid out) \<and> 0 \<le> Rect.top (valid out) \<and>
     IM_RECT_RIGHT (valid out) + tile_width r \<le> INT_MAX + 1 \<and>
     IM_RECT_BOTTOM (valid out) + tile_height r \<le> INT_MAX + 1 \<longrightarrow>
       (\<exists>out'. mask_fill rp out w = Inr (0, w, out') \<and> valid out' = valid out \<and>
          (\<forall>px py. pels out' (px, py) =
             (if im_rect_includespoint (valid out) px py then
                if \<exists>t. render_tile_lookup r
                          \<lparr>left = (px sdiv tile_width r) * tile_width r,
                             top = (py sdiv tile_height r) * tile_height r,
                             width = tile_width r, height = tile_height r\<rparr> = Some t \<and>
                        painted (tilemem r t) \<and> \<not> invalid (region (tilemem r t))
                then 255 else 0
              else pels out (px, py)))))"
proof (intro conjI impI)
  show "mask_fill_body rp x y (w, out) =
      (w, im_region_paint out
            \<lparr>left = x, top = y, width = tile_width r, height = tile_height r\<rparr>
            (if \<exists>t. render_tile_lookup r
                        \<lparr>left = x, top = y, width = tile_width r, height = tile_height r\<rparr>
                      = Some t \<and>
                    painted (tilemem r t) \<and> \<not> invalid (region (tilemem r t))
             then 255 else 0))"
    unfolding assms mask_fill_body_eq mask_value_iff ..
next
  assume "0 < tile_width r \<and> 0 < tile_height r \<and>
     0 \<le> left (valid out) \<and> 0 \<le> Rect.top (valid out) \<and>
     IM_RECT_RIGHT (valid out) + tile_width r \<le> INT_MAX + 1 \<and>
     IM_RECT_BOTTOM (valid out) + tile_height r \<le> INT_MAX + 1"
  then show "\<exists>out'. mask_fill rp out w = Inr (0, w, out') \<and> valid out' = valid out \<and>
          (\<forall>px py. pels out' (px, py) =
             (if im_rect_includespoint (valid out) px py then
                if \<exists>t. render_tile_lookup r
                          \<lparr>left = (px sdiv tile_width r) * tile_width r,
                             top = (py sdiv tile_height r) * tile_height r,
                             width = tile_width r, height = tile_height r\<rparr> = Some t \<and>
                        painted (tilemem r t) \<and> \<not> invalid (region (tilemem r t))
                then 255 else 0
              else pels out (px, py)))"
    using mask_fill_total [OF assms, of out] by blast
qed

lemma two_painted_eval3:
  "\<not> invalid (region (tilemem (renders two_painted 0) 2)) \<and>
   render_tile_lookup (renders two_painted 0) (cell 0 0) = Some 1 \<and>
   render_tile_lookup (renders two_painted 0) (cell 2 0) = Some 2 \<and>
   render_tile_lookup (renders two_painted 0) (cell 4 0) = None"
  by (simp add: two_painted_def world_defs)

text \<open>
  C7, witness: over the cells (0, 0), (2, 0) and (4, 0), of which the first two hold
  painted tiles, the mask is 255, 255 and 0; once the region of the first tile is
  invalid it is 0, 255 and 0.
\<close>

theorem mask_fill_pels_witness:
  "tile_width (renders two_painted 0) = 2 \<and> tile_height (renders two_painted 0) = 2 \<and>
   (\<exists>out'. mask_fill 0 (out_region strip) two_painted = Inr (0, two_painted, out') \<and>
      pels out' (1, 1) = 255 \<and> pels out' (3, 0) = 255 \<and> pels out' (5, 1) = 0 \<and>
      pels out' (7, 7) = 5) \<and>
   (\<exists>out'. mask_fill 0 (out_region strip) (invalidate 0 1 two_painted)
        = Inr (0, invalidate 0 1 two_painted, out') \<and>
      pels out' (1, 1) = 0 \<and> pels out' (3, 0) = 255)"
proof -
  note e = two_painted_eval two_painted_eval2 two_painted_eval3
  have h: "0 < tile_width (renders two_painted 0) \<and> 0 < tile_height (renders two_painted 0) \<and>
     0 \<le> left (valid (out_region strip)) \<and> 0 \<le> Rect.top (valid (out_region strip)) \<and>
     IM_RECT_RIGHT (valid (out_region strip)) + tile_width (renders two_painted 0)
       \<le> INT_MAX + 1 \<and>
     IM_RECT_BOTTOM (valid (out_region strip)) + tile_height (renders two_painted 0)
       \<le> INT_MAX + 1"
    using e by (simp add: out_region_def strip_def rect_defs INT_MAX_def)
  from mask_fill_pels [OF refl, where w = two_painted and rp = 0 and out = "out_region strip"
      and x = 0 and y = 0, THEN conjunct2] h
  obtain out' where m: "mask_fill 0 (out_region strip) two_painted = Inr (0, two_painted, out')"
    and p: "\<And>px py. pels out' (px, py) =
       (if im_rect_includespoint (valid (out_region strip)) px py then
          if \<exists>t. render_tile_lookup (renders two_painted 0)
                    \<lparr>left = (px sdiv tile_width (renders two_painted 0)) * tile_width (renders two_painted 0),
                       top = (py sdiv tile_height (renders two_painted 0)) * tile_height (renders two_painted 0),
                       width = tile_width (renders two_painted 0),
                       height = tile_height (renders two_painted 0)\<rparr> = Some t \<and>
                  painted (tilemem (renders two_painted 0) t) \<and>
                  \<not> invalid (region (tilemem (renders two_painted 0) t))
          then 255 else 0
        else pels (out_region strip) (px, py))"
    by blast
  have a: "pels out' (1, 1) = 255 \<and> pels out' (3, 0) = 255 \<and> pels out' (5, 1) = 0 \<and>
      pels out' (7, 7) = 5"
    using p [of 1 1] p [of 3 0] p [of 5 1] p [of 7 7] e
    by (simp add: out_region_def strip_def rect_defs signed_divide_int_def cell_def)
  let ?w = "invalidate 0 1 two_painted"
  have e2: "tile_width (renders ?w 0) = 2 \<and> tile_height (renders ?w 0) = 2 \<and>
     render_tile_lookup (renders ?w 0) (cell 0 0) = Some 1 \<and>
     render_tile_lookup (renders ?w 0) (cell 2 0) = Some 2 \<and>
     invalid (region (tilemem (renders ?w 0) 1)) \<and>
     painted (tilemem (renders ?w 0) 2) \<and> \<not> invalid (region (tilemem (renders ?w 0) 2))"
    using e by (simp add: invalidate_def Let_def render_tile_lookup_def)
  have h2: "0 < tile_width (renders ?w 0) \<and> 0 < tile_height (renders ?w 0) \<and>
     0 \<le> left (valid (out_region strip)) \<and> 0 \<le> Rect.top (valid (out_region strip)) \<and>
     IM_RECT_RIGHT (valid (out_region strip)) + tile_width (renders ?w 0) \<le> INT_MAX + 1 \<and>
     IM_RECT_BOTTOM (valid (out_region strip)) + tile_height (renders ?w 0) \<le> INT_MAX + 1"
    using e2 by (simp add: out_region_def strip_def rect_defs INT_MAX_def)
  from mask_fill_pels [OF refl, where w = ?w and rp = 0 and out = "out_region strip"
      and x = 0 and y = 0, THEN conjunct2] h2
  obtain out2 where m2: "mask_fill 0 (out_region strip) ?w = Inr (0, ?w, out2)"
    and p2: "\<And>px py. pels out2 (px, py) =
       (if im_rect_includespoint (valid (out_region strip)) px py then
          if \<exists>t. render_tile_lookup (renders ?w 0)
                    \<lparr>left = (px sdiv tile_width (renders ?w 0)) * tile_width (renders ?w 0),
                       top = (py sdiv tile_height (renders ?w 0)) * tile_height (renders ?w 0),
                       width = tile_width (renders ?w 0),
                       height = tile_height (renders ?w 0)\<rparr> = Some t \<and>
                  painted (tilemem (renders ?w 0) t) \<and>
                  \<not> invalid (region (tilemem (renders ?w 0) t))
          then 255 else 0
        else pels (out_region strip) (px, py))"
    by blast
  have b: "pels out2 (1, 1) = 0 \<and> pels out2 (3, 0) = 255"
    using p2 [of 1 1] p2 [of 3 0] e2
    by (simp add: out_region_def strip_def rect_defs signed_divide_int_def cell_def)
  from m a m2 b e show ?thesis by simp
qed

text \<open>
  Without the bound on the right edge the call does not return: at a rectangle that
  ends at \<open>INT_MAX\<close> the cell is painted and then \<open>x += render->tile_width\<close> overflows.
\<close>

lemma mask_fill_brink:
  "mask_fill 0 (out_region brink) two_painted = Inl (Integer_overflow, two_painted)"
proof -
  let ?st = "(two_painted, out_region brink)"
  have t: "tile_width (renders two_painted 0) = 2" "tile_height (renders two_painted 0) = 2"
    by (simp_all add: two_painted_def world_defs)
  have f: "fst (mask_fill_body 0 x y ?st) = two_painted" for x y
    by (simp add: mask_fill_body_def Let_def split: option.splits)
  have e: "IM_RECT_RIGHT (valid (out_region brink)) = 2147483647"
    "IM_RECT_BOTTOM (valid (out_region brink)) = 1"
    "left (valid (out_region brink)) = 2147483646" "Rect.top (valid (out_region brink)) = 0"
    by (simp_all add: out_region_def brink_def rect_defs)
  have "mask_fill_x 0 0 2147483646 ?st = Inl (Integer_overflow, two_painted)"
    by (simp add: mask_fill_x.simps [of 0 0 2147483646 ?st] Let_def f t e INT_MAX_def)
  then have "mask_fill_y 0 2147483646 0 ?st = Inl (Integer_overflow, two_painted)"
    by (simp add: mask_fill_y.simps [of 0 2147483646 0 ?st] e)
  then show ?thesis
    by (simp add: mask_fill_def Let_def t e signed_divide_int_def)
qed

text \<open>
  C10, witness: the asynchronous sink with two dirty tiles is the same after its
  mask has been asked for.
\<close>

theorem mask_fill_frame_witness:
  "(\<exists>out'. mask_fill 0 (out_region strip) two_dirty = Inr (0, two_dirty, out')) \<and>
   dirty (renders two_dirty 0) = [2, 1] \<and> ntiles (renders two_dirty 0) = 2"
proof -
  have h: "0 < tile_width (renders two_dirty 0)" "0 < tile_height (renders two_dirty 0)"
     "0 \<le> left (valid (out_region strip))" "0 \<le> Rect.top (valid (out_region strip))"
     "IM_RECT_RIGHT (valid (out_region strip)) + tile_width (renders two_dirty 0) \<le> INT_MAX + 1"
     "IM_RECT_BOTTOM (valid (out_region strip)) + tile_height (renders two_dirty 0) \<le> INT_MAX + 1"
    using two_dirty_eval3 by (simp_all add: out_region_def strip_def rect_defs INT_MAX_def)
  from mask_fill_total [OF refl h]
  obtain rc w' out' where m: "mask_fill 0 (out_region strip) two_dirty = Inr (rc, w', out')"
    and r: "rc = 0"
    by blast
  from mask_fill_frame [where rp = 0 and out = "out_region strip" and w = two_dirty] m have "w' = two_dirty" by simp
  with m r two_dirty_eval show ?thesis by simp
qed

subsection \<open>The scheduler's list\<close>

lemma wrap32_id: "- (2 ^ 31) \<le> i \<Longrightarrow> i < 2 ^ 31 \<Longrightarrow> wrap32 i = i"
  by (simp add: wrap32_def)

lemma agrees_subset: "agrees cmp f S \<Longrightarrow> T \<subseteq> S \<Longrightarrow> agrees cmp f T"
  by (auto simp: agrees_def)

lemma mset_merge: "mset (g_slist_sort_merge cmp xs ys) = mset xs + mset ys"
  by (induction cmp xs ys rule: g_slist_sort_merge.induct) simp_all

lemma set_merge: "set (g_slist_sort_merge cmp xs ys) = set xs \<union> set ys"
  using mset_merge [of cmp xs ys, THEN arg_cong, of set_mset] by simp

lemma sorted_merge:
  assumes "agrees cmp f (set xs \<union> set ys)"
    and "sorted (map f xs)" and "sorted (map f ys)"
  shows "sorted (map f (g_slist_sort_merge cmp xs ys))"
  using assms
proof (induction cmp xs ys rule: g_slist_sort_merge.induct)
  case (3 cmp x l1 y l2)
  show ?case
  proof (cases "cmp x y \<le> 0")
    case True
    then have xy: "f x \<le> f y" using "3.prems"(1) by (simp add: agrees_def)
    have "agrees cmp f (set l1 \<union> set (y # l2))"
      using "3.prems"(1) by (rule agrees_subset) auto
    from "3.IH"(1) [OF True this] "3.prems" have "sorted (map f (g_slist_sort_merge cmp l1 (y # l2)))"
      by simp
    then show ?thesis using True xy "3.prems" by (auto simp: set_merge)
  next
    case False
    then have yx: "f y \<le> f x" using "3.prems"(1) by (auto simp: agrees_def)
    have "agrees cmp f (set (x # l1) \<union> set l2)"
      using "3.prems"(1) by (rule agrees_subset) auto
    from "3.IH"(2) [OF False this] "3.prems" have "sorted (map f (g_slist_sort_merge cmp (x # l1) l2))"
      by simp
    then show ?thesis using False yx "3.prems" by (auto simp: set_merge)
  qed
qed simp_all

lemma filter_merge:
  assumes "agrees cmp f (set xs \<union> set ys)"
    and "sorted (map f xs)" and "sorted (map f ys)"
  shows "filter (\<lambda>a. k = f a) (g_slist_sort_merge cmp xs ys)
       = filter (\<lambda>a. k = f a) xs @ filter (\<lambda>a. k = f a) ys"
  using assms
proof (induction cmp xs ys rule: g_slist_sort_merge.induct)
  case (3 cmp x l1 y l2)
  show ?case
  proof (cases "cmp x y \<le> 0")
    case True
    have "agrees cmp f (set l1 \<union> set (y # l2))"
      using "3.prems"(1) by (rule agrees_subset) auto
    from "3.IH"(1) [OF True this] "3.prems" have ih:
      "filter (\<lambda>a. k = f a) (g_slist_sort_merge cmp l1 (y # l2))
         = filter (\<lambda>a. k = f a) l1 @ filter (\<lambda>a. k = f a) (y # l2)"
      by simp
    have e: "g_slist_sort_merge cmp (x # l1) (y # l2) = x # g_slist_sort_merge cmp l1 (y # l2)"
      using True by simp
    have "filter (\<lambda>a. k = f a) (x # g_slist_sort_merge cmp l1 (y # l2))
        = filter (\<lambda>a. k = f a) [x] @ filter (\<lambda>a. k = f a) (g_slist_sort_merge cmp l1 (y # l2))"
      by simp
    also have "\<dots> = filter (\<lambda>a. k = f a) [x] @ filter (\<lambda>a. k = f a) l1
        @ filter (\<lambda>a. k = f a) (y # l2)"
      by (simp only: ih)
    also have "\<dots> = filter (\<lambda>a. k = f a) (x # l1) @ filter (\<lambda>a. k = f a) (y # l2)"
      by simp
    finally show ?thesis unfolding e .
  next
    case False
    then have yx: "f y < f x" using "3.prems"(1) by (auto simp: agrees_def)
    have a: "agrees cmp f (set (x # l1) \<union> set l2)"
      using "3.prems"(1) by (rule agrees_subset) auto
    have nx: "filter (\<lambda>a. f y = f a) (x # l1) = []"
      using yx "3.prems"(2) by (auto simp: filter_empty_conv)
    from "3.IH"(2) [OF False a] "3.prems" have ih:
      "filter (\<lambda>a. k = f a) (g_slist_sort_merge cmp (x # l1) l2)
         = filter (\<lambda>a. k = f a) (x # l1) @ filter (\<lambda>a. k = f a) l2"
      by simp
    show ?thesis
    proof (cases "k = f y")
      case True
      with nx have "filter (\<lambda>a. k = f a) (x # l1) = []" by simp
      then show ?thesis using False ih True by simp
    next
      case False
      then show ?thesis using \<open>\<not> cmp x y \<le> 0\<close> ih by simp
    qed
  qed
qed simp_all

lemma g_slist_sort_props:
  assumes "agrees cmp f (set xs)"
  shows "mset (g_slist_sort cmp xs) = mset xs \<and> sorted (map f (g_slist_sort cmp xs)) \<and>
     (\<forall>k. filter (\<lambda>a. k = f a) (g_slist_sort cmp xs) = filter (\<lambda>a. k = f a) xs)"
  using assms
proof (induction cmp xs rule: g_slist_sort.induct)
  case (1 cmp xs)
  show ?case
  proof (cases "length xs \<le> 1")
    case True
    then have "xs = [] \<or> (\<exists>x. xs = [x])" by (cases xs) auto
    then show ?thesis by (auto simp: g_slist_sort.simps [of cmp xs])
  next
    case False
    let ?l = "take (length xs div 2) xs" and ?r = "drop (length xs div 2) xs"
    have al: "agrees cmp f (set ?l)" and ar: "agrees cmp f (set ?r)"
      using "1.prems" by (auto intro: agrees_subset dest: in_set_takeD in_set_dropD)
    note il = "1.IH"(1) [OF False al] and ir = "1.IH"(2) [OF False ar]
    have s: "set (g_slist_sort cmp ?l) \<union> set (g_slist_sort cmp ?r) \<subseteq> set xs"
      using il ir by (metis Un_least mset_eq_setD set_drop_subset set_take_subset)
    have am: "agrees cmp f (set (g_slist_sort cmp ?l) \<union> set (g_slist_sort cmp ?r))"
      using "1.prems" s by (rule agrees_subset)
    have e: "g_slist_sort cmp xs = g_slist_sort_merge cmp (g_slist_sort cmp ?l) (g_slist_sort cmp ?r)"
      using False by (simp add: g_slist_sort.simps [of cmp xs])
    have m: "mset (g_slist_sort cmp xs) = mset xs"
      unfolding e mset_merge using il ir
      by (metis append_take_drop_id mset_append)
    have so: "sorted (map f (g_slist_sort cmp xs))"
      unfolding e using sorted_merge [OF am] il ir by blast
    have fi: "filter (\<lambda>a. k = f a) (g_slist_sort cmp xs) = filter (\<lambda>a. k = f a) xs" for k
    proof -
      have "filter (\<lambda>a. k = f a) (g_slist_sort cmp xs)
          = filter (\<lambda>a. k = f a) ?l @ filter (\<lambda>a. k = f a) ?r"
        unfolding e using filter_merge [OF am] il ir by simp
      also have "\<dots> = filter (\<lambda>a. k = f a) (?l @ ?r)" by (simp only: filter_append)
      also have "?l @ ?r = xs" by (rule append_take_drop_id)
      finally show ?thesis .
    qed
    from m so fi show ?thesis by blast
  qed
qed

lemma g_slist_sort_sort_key:
  assumes "agrees cmp f (set xs)"
  shows "g_slist_sort cmp xs = sort_key f xs"
proof -
  note p = g_slist_sort_props [OF assms]
  show ?thesis
    by (rule properties_for_sort_key [symmetric]) (use p in auto)
qed

lemma insort_key_filter:
  assumes "sorted (map f xs)"
  shows "insort_key f x xs = filter (\<lambda>y. f y < f x) xs @ x # filter (\<lambda>y. f x \<le> f y) xs"
  using assms
proof (induction xs)
  case Nil
  then show ?case by simp
next
  case (Cons y ys)
  show ?case
  proof (cases "f x \<le> f y")
    case True
    then have "\<forall>z \<in> set (y # ys). f x \<le> f z" using Cons.prems by auto
    then have "filter (\<lambda>z. f z < f x) (y # ys) = [] \<and> filter (\<lambda>z. f x \<le> f z) (y # ys) = y # ys"
      by (auto simp: filter_empty_conv filter_id_conv)
    then show ?thesis using True by simp
  next
    case False
    then show ?thesis using Cons by simp
  qed
qed

lemma queue_sorted_key:
  "queue_sorted w = sorted (map (\<lambda>p. - priority (renders w p)) (render_dirty_all w))"
  by (simp add: queue_sorted_def sorted_map)

text \<open>
  Sinks of one priority, whatever it is, and sinks whose priorities are all of one
  sign are in range.
\<close>

lemma prio_ok_equal: "\<forall>a \<in> S. priority (renders w a) = c \<Longrightarrow> prio_ok w S"
  by (simp add: prio_ok_def INT_MAX_def)

lemma prio_ok_nonneg:
  assumes "\<forall>a \<in> S. 0 \<le> priority (renders w a) \<and> priority (renders w a) \<le> INT_MAX"
  shows "prio_ok w S"
proof -
  have "- INT_MAX - 1 \<le> priority (renders w b) - priority (renders w a) \<and>
      priority (renders w b) - priority (renders w a) \<le> INT_MAX"
    if "a \<in> S" and "b \<in> S" for a b
  proof -
    from assms that have "0 \<le> priority (renders w a)" "priority (renders w a) \<le> INT_MAX"
      "0 \<le> priority (renders w b)" "priority (renders w b) \<le> INT_MAX"
      by blast+
    then show ?thesis by arith
  qed
  then show ?thesis by (simp add: prio_ok_def)
qed

lemma agrees_render_dirty_sort:
  assumes "prio_ok w S"
  shows "agrees (render_dirty_sort w) (\<lambda>p. - priority (renders w p)) S"
proof -
  have "render_dirty_sort w a b = priority (renders w b) - priority (renders w a)"
    if m: "a \<in> S" "b \<in> S" for a b
  proof -
    from assms m
    have "- INT_MAX - 1 \<le> priority (renders w b) - priority (renders w a)"
      and "priority (renders w b) - priority (renders w a) \<le> INT_MAX"
      unfolding prio_ok_def by blast+
    then have "wrap32 (priority (renders w b) - priority (renders w a))
        = priority (renders w b) - priority (renders w a)"
      by (intro wrap32_id) (simp_all add: INT_MAX_def)
    then show ?thesis by (simp add: render_dirty_sort_def)
  qed
  then show ?thesis by (simp add: agrees_def)
qed

lemma g_slist_sort_put:
  assumes "prio_ok w S" and "set (render_dirty_all w) \<subseteq> S" and "rp \<in> S"
  shows "g_slist_sort (render_dirty_sort w) (rp # render_dirty_all w)
       = sort_key (\<lambda>p. - priority (renders w p)) (rp # render_dirty_all w)"
proof (rule g_slist_sort_sort_key)
  show "agrees (render_dirty_sort w) (\<lambda>p. - priority (renders w p))
      (set (rp # render_dirty_all w))"
    using agrees_render_dirty_sort [OF assms(1)] by (rule agrees_subset) (use assms in auto)
qed

lemma render_dirty_put_list:
  assumes "prio_ok w S" and "set (render_dirty_all w) \<subseteq> S" and "rp \<in> S"
    and "queue_sorted w"
  shows "render_dirty_all (render_dirty_put rp w) =
     (if dirty (renders w rp) \<noteq> [] \<and> rp \<notin> set (render_dirty_all w)
      then filter (\<lambda>q. priority (renders w rp) < priority (renders w q)) (render_dirty_all w)
           @ rp # filter (\<lambda>q. priority (renders w q) \<le> priority (renders w rp)) (render_dirty_all w)
      else render_dirty_all w)"
proof -
  let ?f = "\<lambda>p. - priority (renders w p)"
  let ?l = "render_dirty_all w"
  have s: "sorted (map ?f ?l)" using assms(4) by (simp add: queue_sorted_key)
  have "g_slist_sort (render_dirty_sort w) (rp # ?l) = sort_key ?f (rp # ?l)"
    by (rule g_slist_sort_put [OF assms(1-3)])
  also have "\<dots> = insort_key ?f rp ?l" using s by (simp add: sort_key_id_if_sorted)
  also have "\<dots> = filter (\<lambda>y. ?f y < ?f rp) ?l @ rp # filter (\<lambda>y. ?f rp \<le> ?f y) ?l"
    using s by (rule insort_key_filter)
  finally show ?thesis by (simp add: render_dirty_put_def)
qed

lemma render_dirty_put_inv:
  assumes "sched_inv w S" and "rp \<in> S"
  shows "sched_inv (render_dirty_put rp w) S"
proof -
  let ?f = "\<lambda>p. - priority (renders w p)"
  let ?l = "render_dirty_all w"
  from assms have ok: "prio_ok w S" and sub: "set ?l \<subseteq> S" and s: "sorted (map ?f ?l)"
    and d: "distinct ?l"
    by (simp_all add: sched_inv_def queue_sorted_key)
  have r: "renders (render_dirty_put rp w) = renders w" by (simp add: render_dirty_put_def)
  show ?thesis
  proof (cases "dirty (renders w rp) \<noteq> [] \<and> rp \<notin> set ?l")
    case False
    then have "render_dirty_put rp w = w" by (auto simp: render_dirty_put_def)
    with assms show ?thesis by simp
  next
    case True
    have "g_slist_sort (render_dirty_sort w) (rp # ?l) = sort_key ?f (rp # ?l)"
      by (rule g_slist_sort_put [OF ok sub assms(2)])
    then have e: "render_dirty_all (render_dirty_put rp w) = sort_key ?f (rp # ?l)"
      using True by (simp add: render_dirty_put_def)
    have "sorted (map ?f (sort_key ?f (rp # ?l)))" by (rule sorted_sort_key)
    moreover have "distinct (sort_key ?f (rp # ?l))" using True d by (simp add: distinct_insort)
    moreover have "set (sort_key ?f (rp # ?l)) \<subseteq> S"
      using sub assms(2) by (simp only: set_sort list.set) simp
    ultimately show ?thesis using ok e r
      by (simp add: sched_inv_def queue_sorted_key prio_ok_def)
  qed
qed

lemma render_dirty_get_head:
  assumes "0 < render_dirty_sem w" and "render_dirty_all w = q # qs"
    and "ref_count (renders w q) \<noteq> 0"
  shows "render_dirty_get w =
     Inr (Some q, w\<lparr>renders := (renders w)(q := (renders w q)\<lparr>ref_count := ref_count (renders w q) + 1\<rparr>),
                    render_dirty_sem := render_dirty_sem w - 1,
                    render_dirty_all := qs\<rparr>)"
  using assms by (simp add: render_dirty_get_def render_ref_def Let_def set_render_def)

lemma render_dirty_get_inv:
  assumes "sched_inv w S"
  shows "sched_inv (case render_dirty_get w of Inl (e, w') \<Rightarrow> w' | Inr (res, w') \<Rightarrow> w') S"
proof -
  from assms have ok: "prio_ok w S" and sub: "set (render_dirty_all w) \<subseteq> S"
    and s: "queue_sorted w" and d: "distinct (render_dirty_all w)"
    by (simp_all add: sched_inv_def)
  show ?thesis
  proof (cases "render_dirty_sem w \<le> 0")
    case True
    then show ?thesis using assms by (simp add: render_dirty_get_def)
  next
    case False
    show ?thesis
    proof (cases "render_dirty_all w")
      case Nil
      then show ?thesis using False assms
        by (simp add: render_dirty_get_def Let_def sched_inv_def queue_sorted_def prio_ok_def)
    next
      case (Cons q qs)
      show ?thesis
      proof (cases "ref_count (renders w q) = 0")
        case True
        then show ?thesis using False Cons assms
          by (simp add: render_dirty_get_def render_ref_def Let_def sched_inv_def
              queue_sorted_def prio_ok_def)
      next
        case nz: False
        from False have "0 < render_dirty_sem w" by simp
        from render_dirty_get_head [OF this Cons nz]
        obtain w' where g: "render_dirty_get w = Inr (Some q, w')"
          and pr: "\<And>p. priority (renders w' p) = priority (renders w p)"
          and l: "render_dirty_all w' = qs"
          by simp
        have "sched_inv w' S" using ok sub s d Cons
          by (simp add: sched_inv_def queue_sorted_def prio_ok_def pr l)
        then show ?thesis using g by simp
      qed
    qed
  qed
qed

lemma run_sched_inv: "sched_inv w S \<Longrightarrow> puts ops \<subseteq> S \<Longrightarrow> sched_inv (run_sched ops w) S"
proof (induction ops arbitrary: w)
  case Nil
  then show ?case by simp
next
  case (Cons op ops)
  show ?case
  proof (cases op)
    case (Put rp)
    with Cons.prems(2) have m: "rp \<in> S" and p: "puts ops \<subseteq> S" by simp_all
    from Cons.IH [OF render_dirty_put_inv [OF Cons.prems(1) m] p] Put show ?thesis by simp
  next
    case Get
    with Cons.prems(2) have p: "puts ops \<subseteq> S" by simp
    note g = render_dirty_get_inv [OF Cons.prems(1)]
    show ?thesis
    proof (cases "render_dirty_get w")
      case (Inl ew)
      then show ?thesis using g Get by (simp split: prod.splits)
    next
      case (Inr res)
      obtain x w' where r: "res = (x, w')" by (cases res)
      with g Inr have "sched_inv w' S" by simp
      from Cons.IH [OF this p] show ?thesis using Get Inr r by simp
    qed
  qed
qed

text \<open>
  C5, amended: let the difference of the priorities of any two of the sinks that are
  in the list or are put fit an \<open>int\<close>. Then after any sequence of \<open>render_dirty_put\<close>
  and \<open>render_dirty_get\<close> calls the list of dirty sinks is sorted by descending
  priority and holds every sink at most once. \<open>render_dirty_put\<close> of a sink that has
  dirty tiles and is not in the list places it behind the sinks of higher priority
  and in front of the sinks of equal or lower priority: among sinks of equal
  priority the one queued last comes first. \<open>render_dirty_get\<close>, given a ticket,
  pops the head of the list, whose priority is the highest.
\<close>

theorem render_dirty_order:
  assumes "prio_ok w (set (render_dirty_all w) \<union> puts ops \<union> {rp})"
    and "queue_sorted w" and "distinct (render_dirty_all w)"
  shows "queue_sorted (run_sched ops w) \<and> distinct (render_dirty_all (run_sched ops w)) \<and>
    render_dirty_all (render_dirty_put rp w) =
      (if dirty (renders w rp) \<noteq> [] \<and> rp \<notin> set (render_dirty_all w)
       then filter (\<lambda>q. priority (renders w rp) < priority (renders w q)) (render_dirty_all w)
            @ rp # filter (\<lambda>q. priority (renders w q) \<le> priority (renders w rp)) (render_dirty_all w)
       else render_dirty_all w) \<and>
    (\<forall>q qs. 0 < render_dirty_sem w \<and> render_dirty_all w = q # qs \<and> ref_count (renders w q) \<noteq> 0
       \<longrightarrow> (\<exists>w'. render_dirty_get w = Inr (Some q, w') \<and> render_dirty_all w' = qs) \<and>
           (\<forall>p \<in> set qs. priority (renders w p) \<le> priority (renders w q)))"
proof -
  let ?S = "set (render_dirty_all w) \<union> puts ops \<union> {rp}"
  have "set (render_dirty_all w) \<subseteq> ?S" by blast
  with assms have i: "sched_inv w ?S" unfolding sched_inv_def by blast
  have "puts ops \<subseteq> ?S" by blast
  from run_sched_inv [OF i this]
  have a: "queue_sorted (run_sched ops w) \<and> distinct (render_dirty_all (run_sched ops w))"
    by (simp add: sched_inv_def)
  have b: "render_dirty_all (render_dirty_put rp w) =
      (if dirty (renders w rp) \<noteq> [] \<and> rp \<notin> set (render_dirty_all w)
       then filter (\<lambda>q. priority (renders w rp) < priority (renders w q)) (render_dirty_all w)
            @ rp # filter (\<lambda>q. priority (renders w q) \<le> priority (renders w rp)) (render_dirty_all w)
       else render_dirty_all w)"
  proof (rule render_dirty_put_list [OF assms(1) _ _ assms(2)])
    show "set (render_dirty_all w) \<subseteq> ?S" by blast
    show "rp \<in> ?S" by blast
  qed
  have c: "(\<exists>w'. render_dirty_get w = Inr (Some q, w') \<and> render_dirty_all w' = qs) \<and>
           (\<forall>p \<in> set qs. priority (renders w p) \<le> priority (renders w q))"
    if h: "0 < render_dirty_sem w \<and> render_dirty_all w = q # qs \<and> ref_count (renders w q) \<noteq> 0"
    for q qs
  proof -
    from h render_dirty_get_head [of w q qs]
    have "\<exists>w'. render_dirty_get w = Inr (Some q, w') \<and> render_dirty_all w' = qs" by simp
    moreover have "\<forall>p \<in> set qs. priority (renders w p) \<le> priority (renders w q)"
      using assms(2) h by (simp add: queue_sorted_def)
    ultimately show ?thesis by blast
  qed
  from a b c show ?thesis by blast
qed

lemma two_sinks_puts:
  "render_dirty_all (render_dirty_put 1 (render_dirty_put 0 two_sinks)) = [1, 0] \<and>
   render_dirty_sem (render_dirty_put 1 (render_dirty_put 0 two_sinks)) = 2"
  by (simp add: two_sinks_def demo_world_def demo_defs render_dirty_put_def render_dirty_sort_def
      wrap32_def g_slist_sort.simps)

text \<open>
  C5, as the spec states it: among sinks of equal priority the sink queued first
  comes first, and \<open>render_dirty_get\<close> pops it. It does not hold: sink 0 is queued,
  then sink 1 of the same priority; the list is [1, 0] and \<open>render_dirty_get\<close> pops
  sink 1.
\<close>

theorem render_dirty_fifo_counterexample:
  "priority (renders two_sinks 0) = priority (renders two_sinks 1) \<and>
   render_dirty_all (render_dirty_put 0 two_sinks) = [0] \<and>
   render_dirty_all (render_dirty_put 1 (render_dirty_put 0 two_sinks)) = [1, 0] \<and>
   \<not> isl (render_dirty_get (render_dirty_put 1 (render_dirty_put 0 two_sinks))) \<and>
   fst (projr (render_dirty_get (render_dirty_put 1 (render_dirty_put 0 two_sinks)))) = Some 1"
proof -
  have a: "priority (renders two_sinks 0) = priority (renders two_sinks 1) \<and>
     render_dirty_all (render_dirty_put 0 two_sinks) = [0]"
    by (simp add: two_sinks_def demo_world_def demo_defs render_dirty_put_def)
  have r: "ref_count (renders (render_dirty_put 1 (render_dirty_put 0 two_sinks)) 1) = 1"
    by (simp add: two_sinks_def demo_world_def demo_defs render_dirty_put_def)
  from two_sinks_puts r
  have "\<not> isl (render_dirty_get (render_dirty_put 1 (render_dirty_put 0 two_sinks))) \<and>
   fst (projr (render_dirty_get (render_dirty_put 1 (render_dirty_put 0 two_sinks)))) = Some 1"
    by (simp add: render_dirty_get_def render_ref_def Let_def)
  with a two_sinks_puts show ?thesis by simp
qed

lemma renders_run_puts:
  "renders (run_sched [Put a, Put b, Put c] w) = renders w"
  by (simp add: render_dirty_put_def)

lemma three_sinks_eval:
  "render_dirty_all three_sinks = [] \<and>
   render_dirty_all (run_sched [Put 0, Put 1, Put 2] three_sinks) = [1, 2, 0] \<and>
   render_dirty_sem (run_sched [Put 0, Put 1, Put 2] three_sinks) = 3 \<and>
   ref_count (renders three_sinks 1) = 1"
  by (simp add: three_sinks_def two_sinks_def demo_world_def demo_defs render_dirty_put_def
      render_dirty_sort_def wrap32_def g_slist_sort.simps)

text \<open>
  Why the priorities must be in range: the difference of the priorities -2 and
  2147483647 wraps around to a positive number, and the sink of priority -2 is
  sorted in front of the sink of the largest priority.
\<close>

lemma render_dirty_sort_overflow:
  "render_dirty_sort extreme_sinks 1 0 = - 2147483647 \<and>
   render_dirty_all (render_dirty_put 1 (render_dirty_put 0 extreme_sinks)) = [1, 0] \<and>
   \<not> queue_sorted (render_dirty_put 1 (render_dirty_put 0 extreme_sinks))"
  by (simp add: extreme_sinks_def demo_world_def demo_defs render_dirty_put_def
      render_dirty_sort_def wrap32_def g_slist_sort.simps queue_sorted_def)

text \<open>
  C5, witness: sinks 0, 1 and 2 are queued in this order, sink 1 with priority 5 and
  the others with priority 0; the list is [1, 2, 0] and \<open>render_dirty_get\<close> pops
  sink 1.
\<close>

theorem render_dirty_order_witness:
  "prio_ok three_sinks {0, 1, 2} \<and> queue_sorted three_sinks \<and>
   render_dirty_all (run_sched [Put 0, Put 1, Put 2] three_sinks) = [1, 2, 0] \<and>
   queue_sorted (run_sched [Put 0, Put 1, Put 2] three_sinks) \<and>
   render_dirty_all (render_dirty_put 0 three_sinks) = [0] \<and>
   (\<exists>w'. render_dirty_get (run_sched [Put 0, Put 1, Put 2] three_sinks) = Inr (Some 1, w') \<and>
      render_dirty_all w' = [2, 0])"
proof -
  let ?w3 = "run_sched [Put 0, Put 1, Put 2] three_sinks"
  note e = three_sinks_eval
  have ok: "prio_ok three_sinks {0, 1, 2}"
    by (simp add: prio_ok_def three_sinks_def two_sinks_def demo_world_def demo_defs INT_MAX_def)
  have s0: "queue_sorted three_sinks" and d0: "distinct (render_dirty_all three_sinks)"
    using e by (simp_all add: queue_sorted_def)
  have ok0: "prio_ok three_sinks
      (set (render_dirty_all three_sinks) \<union> puts [Put 0, Put 1, Put 2] \<union> {0})"
    using ok e by (simp add: insert_commute)
  note a = render_dirty_order [OF ok0 s0 d0]
  have dz: "dirty (renders three_sinks 0) \<noteq> []"
    by (simp add: three_sinks_def two_sinks_def demo_world_def demo_defs)
  have p0: "render_dirty_all (render_dirty_put 0 three_sinks) = [0]"
    using a e dz by simp
  have ok3: "prio_ok ?w3 (set (render_dirty_all ?w3) \<union> puts [] \<union> {0})"
    using ok e unfolding prio_ok_def renders_run_puts by (simp add: insert_commute)
  have s3: "queue_sorted ?w3" and d3: "distinct (render_dirty_all ?w3)"
    using a by simp_all
  note b = render_dirty_order [OF ok3 s3 d3]
  have r3: "ref_count (renders ?w3 1) \<noteq> 0"
    using e unfolding renders_run_puts by simp
  have "\<exists>w'. render_dirty_get ?w3 = Inr (Some 1, w') \<and> render_dirty_all w' = [2, 0]"
    using b e r3 by simp
  with ok s0 e s3 p0 show ?thesis by simp
qed

subsection \<open>Filling a region: failures of the producer, empty regions\<close>

lemma valid_fold_memcpy_row [simp]: "valid (fold (memcpy_row src ov) ys d) = valid d"
  by (induction ys arbitrary: d) (simp_all add: memcpy_row_def)

lemma region_fill_one_cell:
  assumes "tile_width (renders w rp) \<noteq> 0" and "tile_height (renders w rp) \<noteq> 0"
    and "xs = (left (valid out) sdiv tile_width (renders w rp)) * tile_width (renders w rp)"
    and "ys = (Rect.top (valid out) sdiv tile_height (renders w rp)) * tile_height (renders w rp)"
    and "xs < IM_RECT_RIGHT (valid out)" and "ys < IM_RECT_BOTTOM (valid out)"
  shows "region_fill_body E rp xs ys (w, out) = Inl e \<Longrightarrow> region_fill E rp out w = Inl e"
    and "region_fill_body E rp xs ys (w, out) = Inr (w', out') \<Longrightarrow>
      0 < tile_width (renders w' rp) \<Longrightarrow> 0 < tile_height (renders w' rp) \<Longrightarrow>
      IM_RECT_RIGHT (valid out) \<le> xs + tile_width (renders w' rp) \<Longrightarrow>
      IM_RECT_BOTTOM (valid out) \<le> ys + tile_height (renders w' rp) \<Longrightarrow>
      xs + tile_width (renders w' rp) \<le> INT_MAX \<Longrightarrow>
      ys + tile_height (renders w' rp) \<le> INT_MAX \<Longrightarrow>
      region_fill E rp out w = Inr (0, w', out')"
proof -
  assume b: "region_fill_body E rp xs ys (w, out) = Inl e"
  have "region_fill_x E rp ys xs (w, out) = Inl e"
    using assms(5) b by (simp add: region_fill_x.simps [of E rp ys xs "(w, out)"])
  then have "region_fill_y E rp xs ys (w, out) = Inl e"
    using assms(6) by (simp add: region_fill_y.simps [of E rp xs ys "(w, out)"])
  then show "region_fill E rp out w = Inl e"
    using assms(1-4) by (simp add: region_fill_def Let_def)
next
  assume b: "region_fill_body E rp xs ys (w, out) = Inr (w', out')"
    and tw: "0 < tile_width (renders w' rp)" and th: "0 < tile_height (renders w' rp)"
    and r: "IM_RECT_RIGHT (valid out) \<le> xs + tile_width (renders w' rp)"
    and bo: "IM_RECT_BOTTOM (valid out) \<le> ys + tile_height (renders w' rp)"
    and ox: "xs + tile_width (renders w' rp) \<le> INT_MAX"
    and oy: "ys + tile_height (renders w' rp) \<le> INT_MAX"
  have v: "valid out' = valid out" using region_fill_body_valid [OF b] .
  have x2: "region_fill_x E rp ys (xs + tile_width (renders w' rp)) (w', out') = Inr (w', out')"
    using r v by (simp add: region_fill_x.simps [of E rp ys _ "(w', out')"])
  have x1: "region_fill_x E rp ys xs (w, out) = Inr (w', out')"
    using assms(5) b tw ox x2 by (simp add: region_fill_x.simps [of E rp ys xs "(w, out)"])
  have y2: "region_fill_y E rp xs (ys + tile_height (renders w' rp)) (w', out') = Inr (w', out')"
    using bo v by (simp add: region_fill_y.simps [of E rp xs _ "(w', out')"])
  have "region_fill_y E rp xs ys (w, out) = Inr (w', out')"
    using assms(6) x1 th oy y2 by (simp add: region_fill_y.simps [of E rp xs ys "(w, out)"])
  then show "region_fill E rp out w = Inr (0, w', out')"
    using assms(1-4) by (simp add: region_fill_def Let_def)
qed

lemma fail_body:
  "\<exists>w' out'. region_fill_body (failing_env False) 0 0 0
       (demo_world (demo_render 2 False), out_region (cell 0 0)) = Inr (w', out') \<and>
     painted (tilemem (renders w' 0) 1) \<and> tile_width (renders w' 0) = 2 \<and>
     tile_height (renders w' 0) = 2"
  by (simp add: failing_env_def world_defs region_fill_body_def tile_copy_def rect_defs
      out_region_def)

text \<open>
  C2, on the code: on a synchronous sink (no notify) whose producer fails to prepare
  the tile, \<open>region_fill\<close> returns 0, not an error, and the tile is marked painted:
  \<open>tile_queue\<close> does not look at the result of \<^verbatim>\<open>im_prepare\<close>. The worker's path,
  \<open>render_work\<close>, on the same failure returns -1 and leaves the tile unpainted.
\<close>

theorem region_fill_prepare_failure:
  "fst (im_prepare (failing_env False) blank (cell 0 0)) = - 1 \<and>
   \<not> notify (renders (demo_world (demo_render 2 False)) 0) \<and>
   (\<exists>w' out'. region_fill (failing_env False) 0 (out_region (cell 0 0))
        (demo_world (demo_render 2 False)) = Inr (0, w', out') \<and>
      painted (tilemem (renders w' 0) 1)) \<and>
   fst (render_work (failing_env True) 0 2 (two_dirty\<lparr>render_reschedule := False\<rparr>)) = - 1 \<and>
   \<not> painted (tilemem (renders (snd (render_work (failing_env True) 0 2
         (two_dirty\<lparr>render_reschedule := False\<rparr>))) 0) 2)"
proof -
  let ?w = "demo_world (demo_render 2 False)" and ?out = "out_region (cell 0 0)"
  from fail_body obtain w' out' where
    b: "region_fill_body (failing_env False) 0 0 0 (?w, ?out) = Inr (w', out')"
    and p: "painted (tilemem (renders w' 0) 1)"
    and t: "tile_width (renders w' 0) = 2" "tile_height (renders w' 0) = 2"
    by blast
  have c: "tile_width (renders ?w 0) = 2" "tile_height (renders ?w 0) = 2"
    by (simp_all add: demo_world_def demo_defs)
  have "region_fill (failing_env False) 0 ?out ?w = Inr (0, w', out')"
    by (rule region_fill_one_cell(2) [OF _ _ _ _ _ _ b])
       (simp_all add: c t out_region_def cell_def rect_defs signed_divide_int_def INT_MAX_def)
  with p have r: "\<exists>w' out'. region_fill (failing_env False) 0 ?out ?w = Inr (0, w', out') \<and>
      painted (tilemem (renders w' 0) 1)"
    by blast
  have a: "fst (im_prepare (failing_env False) blank (cell 0 0)) = - 1 \<and> \<not> notify (renders ?w 0)"
    by (simp add: failing_env_def demo_world_def demo_defs)
  have k: "fst (render_work (failing_env True) 0 2 (two_dirty\<lparr>render_reschedule := False\<rparr>)) = - 1 \<and>
   \<not> painted (tilemem (renders (snd (render_work (failing_env True) 0 2
         (two_dirty\<lparr>render_reschedule := False\<rparr>))) 0) 2)"
    using two_dirty_eval2 by (simp add: render_work_def Let_def failing_env_def demo_env_def)
  from a r k show ?thesis by blast
qed







end
